theory Spec2Isabelle
  imports Main "HOL-Library.Sublist" "HOL-Library.List_Lexorder" "HOL-Library.Char_ord"
    "HOL-Library.AList" "HOL-Library.Multiset"
begin

section \<open>The regular expressions of the rule table\<close>

text \<open>
  The patterns of \<open>REPLACEMENTS\<close> use a small fragment of Python's \<open>re\<close> syntax: literal text
  (with \<open>\.\<close>, \<open>\(\<close> and \<open>\)\<close> for the literal characters), the greedy negated class
  \<open>[^c]*\<close>, and the same inside a capturing group, \<open>([^c]*)\<close>. A pattern is the list of its
  items in order; a replacement template is literal text and group references \<open>\n\<close>.
\<close>

datatype item = Lit string | NotStar char | Cap char

type_synonym pattern = "item list"

datatype titem = TLit string | TGroup nat

type_synonym template = "titem list"

datatype exn = Exn string

text \<open>
  A greedy star tries the longest run of admissible characters first and gives characters back
  one at a time: \<open>splits c s\<close> lists the ways to cut \<open>s\<close> after a run without \<open>c\<close>, longest first.
\<close>

definition splits :: "char \<Rightarrow> string \<Rightarrow> (string \<times> string) list" where
  "splits c s =
     map (\<lambda>n. (take n s, drop n s)) (rev [0 ..< Suc (length (takeWhile (\<lambda>d. d \<noteq> c) s))])"

fun first_some :: "('a \<Rightarrow> 'b option) \<Rightarrow> 'a list \<Rightarrow> 'b option" where
  "first_some f [] = None"
| "first_some f (x # xs) = (case f x of Some y \<Rightarrow> Some y | None \<Rightarrow> first_some f xs)"

text \<open>
  \<open>re_match p s\<close> is the backtracking match of \<open>p\<close> anchored at the start of \<open>s\<close>: the captured
  groups and the text left after the match, or \<open>None\<close>.
\<close>

fun re_match :: "pattern \<Rightarrow> string \<Rightarrow> (string list \<times> string) option" where
  "re_match [] s = Some ([], s)"
| "re_match (Lit l # p) s = (if prefix l s then re_match p (drop (length l) s) else None)"
| "re_match (NotStar c # p) s = first_some (\<lambda>(u, v). re_match p v) (splits c s)"
| "re_match (Cap c # p) s =
     first_some (\<lambda>(u, v). map_option (\<lambda>(gs, r). (u # gs, r)) (re_match p v)) (splits c s)"

fun ngroups :: "pattern \<Rightarrow> nat" where
  "ngroups [] = 0"
| "ngroups (Cap c # p) = Suc (ngroups p)"
| "ngroups (i # p) = ngroups p"

fun valid_template :: "pattern \<Rightarrow> template \<Rightarrow> bool" where
  "valid_template p [] = True"
| "valid_template p (TLit l # t) = valid_template p t"
| "valid_template p (TGroup n # t) = (1 \<le> n \<and> n \<le> ngroups p \<and> valid_template p t)"

fun expand :: "template \<Rightarrow> string list \<Rightarrow> string" where
  "expand [] gs = []"
| "expand (TLit l # t) gs = l @ expand t gs"
| "expand (TGroup n # t) gs = gs ! (n - 1) @ expand t gs"

text \<open>
  The scan of \<open>re.sub\<close>: at each position the leftmost match is replaced and the scan goes on
  behind it; where nothing matches, the character is copied. An empty match is replaced too and
  the scan moves one character on (Python 3.7 and later).
\<close>

fun sub_from :: "pattern \<Rightarrow> template \<Rightarrow> string \<Rightarrow> string" where
  "sub_from p t [] = (case re_match p [] of None \<Rightarrow> [] | Some (gs, r) \<Rightarrow> expand t gs)"
| "sub_from p t (c # cs) =
     (case re_match p (c # cs) of
        None \<Rightarrow> c # sub_from p t cs
      | Some (gs, r) \<Rightarrow>
          if length r < length (c # cs) then expand t gs @ sub_from p t r
          else expand t gs @ c # sub_from p t cs)"

text \<open>
  \<open>re.sub\<close> compiles the template before it scans, and raises \<open>re.error\<close> for a reference to a
  group that the pattern does not have.
\<close>

definition re_sub :: "pattern \<Rightarrow> template \<Rightarrow> string \<Rightarrow> exn + string" where
  "re_sub p t s =
     (if valid_template p t then Inr (sub_from p t s) else Inl (Exn ''invalid group reference''))"

section \<open>The rule table\<close>

definition REPLACEMENTS :: "(pattern \<times> template) list" where
  \<open>REPLACEMENTS = [
    ([Lit ''<article class="article-content container">''],
     [TLit ''<article class="article-content">'']),
    ([Lit ''<div class="key-takeaways" style="'', NotStar (CHR ''"''), Lit ''">''],
     [TLit ''<div class="key-takeaways">'']),
    ([Lit ''<h3 style="color: white; margin-bottom: 1rem;">Key Takeaways</h3>''],
     [TLit ''<h3>Key Takeaways</h3>'']),
    ([Lit ''<ul style="list-style: none; padding: 0;">''],
     [TLit ''<ul>'']),
    ([Lit ''<li style="margin-bottom: 0.75rem;">''],
     [TLit ''<li>'']),
    ([Lit ''<div class="info-box" style="'', NotStar (CHR ''"''), Lit ''">''],
     [TLit ''<div class="info-box">'']),
    ([Lit ''<div style="background: #fef2f2; border-left: 4px solid #ef4444; padding: 1.5rem; margin: 1.5rem 0; border-radius: 0 8px 8px 0;">''],
     [TLit ''<div class="warning-box">'']),
    ([Lit ''<div style="background: #f0fdf4; border-left: 4px solid #22c55e;'', NotStar (CHR ''"''), Lit ''">''],
     [TLit ''<div class="success-box">'']),
    ([Lit ''<table style="'', NotStar (CHR ''"''), Lit ''">''],
     [TLit ''<table>'']),
    ([Lit ''<thead style="'', NotStar (CHR ''"''), Lit ''">''],
     [TLit ''<thead>'']),
    ([Lit ''<th style="'', NotStar (CHR ''"''), Lit ''">''],
     [TLit ''<th>'']),
    ([Lit ''<td style="'', NotStar (CHR ''"''), Lit ''">''],
     [TLit ''<td>'']),
    ([Lit ''<tr style="'', NotStar (CHR ''"''), Lit ''">''],
     [TLit ''<tr>'']),
    ([Lit ''<div class="cta-box" style="'', NotStar (CHR ''"''), Lit ''">''],
     [TLit ''<div class="cta-box">'']),
    ([Lit ''<h3 style="color: white; font-size: 2rem; margin: 0 0 1rem 0;">''],
     [TLit ''<h3>'']),
    ([Lit ''<p style="font-size: 1.2rem; margin-bottom: 1.5rem;">''],
     [TLit ''<p>'']),
    ([Lit ''<a href="'', Cap (CHR ''"''), Lit ''" class="cta-button" style="'', NotStar (CHR ''"''), Lit ''">''],
     [TLit ''<a href="'', TGroup 1, TLit ''" class="cta-button">'']),
    ([Lit ''<div class="related-posts" style="'', NotStar (CHR ''"''), Lit ''">''],
     [TLit ''<div class="related-posts">'']),
    ([Lit ''<h3 style="font-size: 1.5rem; margin-bottom: 1.5rem;">'', Cap (CHR ''<''), Lit ''</h3>''],
     [TLit ''<h3>'', TGroup 1, TLit ''</h3>'']),
    ([Lit ''<div style="display: grid; grid-template-columns: repeat(auto-fit, minmax(300px, 1fr)); gap: 1.5rem;">''],
     [TLit ''<div class="related-posts-grid">'']),
    ([Lit ''<div style="border: 1px solid #e2e8f0; border-radius: 8px; padding: 1.5rem;">''],
     [TLit ''<div class="related-post-card">'']),
    ([Lit ''<h4 style="margin: 0 0 0.5rem 0;"><a href="'', Cap (CHR ''"''), Lit ''" style="color: #0ea5e9;">'', Cap (CHR ''<''), Lit ''</a></h4>''],
     [TLit ''<h4><a href="'', TGroup 1, TLit ''">'', TGroup 2, TLit ''</a></h4>'']),
    ([Lit ''<p style="margin: 0; color: #64748b;">''],
     [TLit ''<p>'']),
    ([Lit ''<div class="step" style="'', NotStar (CHR ''"''), Lit ''">''],
     [TLit ''<div class="step">'']),
    ([Lit ''<span class="step-number" style="'', NotStar (CHR ''"''), Lit ''">''],
     [TLit ''<span class="step-number">'']),
    ([Lit ''<div class="related-grid" style="'', NotStar (CHR ''"''), Lit ''">''],
     [TLit ''<div class="related-grid">'']),
    ([Lit ''<p class="cta-subtext" style="'', NotStar (CHR ''"''), Lit ''">''],
     [TLit ''<p class="cta-subtext">''])
  ]\<close>

section \<open>The rewriting loop of \<open>clean_html_file\<close>\<close>

fun apply_replacements :: "(pattern \<times> template) list \<Rightarrow> string \<Rightarrow> exn + string" where
  "apply_replacements [] content = Inr content"
| "apply_replacements ((pattern, replacement) # rules) content =
     (case re_sub pattern replacement content of
        Inl e \<Rightarrow> Inl e
      | Inr content' \<Rightarrow> apply_replacements rules content')"

section \<open>Files, console and paths\<close>

text \<open>
  A path is the list of its components, which is what \<open>pathlib\<close> compares when it sorts
  paths. A file records what \<open>read_text(encoding='utf-8')\<close> yields for it (the decoded text,
  or the exception raised: a directory, an unreadable or an undecodable file) and the exception
  with which \<open>write_text\<close> fails on it, if it does. The file system lists its entries in the
  order in which the operating system enumerates them. Every \<open>print\<close>, \<open>read_text\<close> and
  \<open>write_text\<close> that the program executes is appended to the trace.
\<close>

type_synonym path = "string list"

record fnode =
  on_read :: "exn + string"
  on_write :: "exn option"

datatype event = Print string | ReadText path | WriteText path string

record world =
  fs :: "(path \<times> fnode) list"
  trace :: "event list"

definition print :: "string \<Rightarrow> world \<Rightarrow> world" where
  "print s w = w\<lparr>trace := trace w @ [Print s]\<rparr>"

fun printed :: "event list \<Rightarrow> string list" where
  "printed [] = []"
| "printed (Print s # es) = s # printed es"
| "printed (e # es) = printed es"

definition console :: "world \<Rightarrow> string list" where
  "console w = printed (trace w)"

definition path_exists :: "path \<Rightarrow> world \<Rightarrow> bool" where
  "path_exists p w = (map_of (fs w) p \<noteq> None)"

definition read_text :: "path \<Rightarrow> world \<Rightarrow> world \<times> (exn + string)" where
  "read_text p w =
     (w\<lparr>trace := trace w @ [ReadText p]\<rparr>,
      case map_of (fs w) p of
        None \<Rightarrow> Inl (Exn ''No such file or directory'')
      | Some f \<Rightarrow> on_read f)"

definition write_text :: "path \<Rightarrow> string \<Rightarrow> world \<Rightarrow> world \<times> (exn + unit)" where
  "write_text p s w =
     (let w' = w\<lparr>trace := trace w @ [WriteText p s]\<rparr> in
      case map_of (fs w) p of
        None \<Rightarrow>
          (w'\<lparr>fs := AList.update p \<lparr>on_read = Inr s, on_write = None\<rparr> (fs w)\<rparr>, Inr ())
      | Some f \<Rightarrow>
          (case on_write f of
             Some e \<Rightarrow> (w', Inl e)
           | None \<Rightarrow> (w'\<lparr>fs := AList.update p (f\<lparr>on_read := Inr s\<rparr>) (fs w)\<rparr>, Inr ())))"

fun path_str :: "path \<Rightarrow> string" where
  "path_str [] = ''.''"
| "path_str [x] = (if x = [] then ''/'' else x)"
| "path_str (x # xs) = x @ ''/'' @ path_str xs"

fun split_sep :: "char \<Rightarrow> string \<Rightarrow> string list" where
  "split_sep c [] = [[]]"
| "split_sep c (x # xs) =
     (if x = c then [] # split_sep c xs
      else (case split_sep c xs of [] \<Rightarrow> [[x]] | y # ys \<Rightarrow> (x # y) # ys))"

text \<open>
  \<open>base / s\<close> of \<open>pathlib\<close>: an absolute \<open>s\<close> replaces \<open>base\<close>; empty components and \<open>.\<close> are
  dropped. An absolute path starts with the empty component.
\<close>

definition joinpath :: "path \<Rightarrow> string \<Rightarrow> path" where
  "joinpath base s =
     (let parts = filter (\<lambda>x. x \<noteq> [] \<and> x \<noteq> ''.'') (split_sep (CHR ''/'') s)
      in if prefix ''/'' s then [] # parts else base @ parts)"

text \<open>
  \<open>base\<close> stands for \<open>Path(__file__).parent.parent\<close>, the parent of \<open>POSTS_DIR\<close>.
\<close>

definition POSTS_DIR :: "path \<Rightarrow> path" where
  "POSTS_DIR base = base @ [''posts'']"

definition rglob_html :: "path \<Rightarrow> world \<Rightarrow> path list" where
  "rglob_html dir w =
     filter (\<lambda>p. strict_prefix dir p \<and> suffix ''.html'' (last p)) (map fst (fs w))"

definition relative_to :: "path \<Rightarrow> path \<Rightarrow> path" where
  "relative_to p base = drop (length base) p"

definition digit :: "nat \<Rightarrow> char" where
  "digit d = char_of (48 + d)"

fun str_nat :: "nat \<Rightarrow> string" where
  "str_nat n = (if n < 10 then [digit n] else str_nat (n div 10) @ [digit (n mod 10)])"

section \<open>\<open>clean_html_file\<close>\<close>

text \<open>The body of the \<open>try\<close> block: the world it leaves, and the value returned or the
  exception raised.\<close>

definition clean_html_file_try :: "path \<Rightarrow> bool \<Rightarrow> world \<Rightarrow> world \<times> (exn + bool)" where
  "clean_html_file_try filepath dry_run w =
     (case read_text filepath w of
        (w1, Inl e) \<Rightarrow> (w1, Inl e)
      | (w1, Inr content) \<Rightarrow>
          (let original = content in
           case apply_replacements REPLACEMENTS content of
             Inl e \<Rightarrow> (w1, Inl e)
           | Inr content' \<Rightarrow>
               if content' \<noteq> original then
                 if \<not> dry_run then
                   (case write_text filepath content' w1 of
                      (w2, Inl e) \<Rightarrow> (w2, Inl e)
                    | (w2, Inr u) \<Rightarrow> (w2, Inr True))
                 else (w1, Inr True)
               else (w1, Inr False)))"

definition clean_html_file :: "path \<Rightarrow> bool \<Rightarrow> world \<Rightarrow> world \<times> bool" where
  "clean_html_file filepath dry_run w =
     (case clean_html_file_try filepath dry_run w of
        (w', Inr changed) \<Rightarrow> (w', changed)
      | (w', Inl (Exn e)) \<Rightarrow>
          (print (''Error processing '' @ path_str filepath @ '': '' @ e) w', False))"

section \<open>\<open>main\<close>\<close>

record args =
  dry_run :: bool
  single :: "string option"

definition dashes :: string where
  "dashes = replicate 50 (CHR ''-'')"

definition main_single :: "path \<Rightarrow> args \<Rightarrow> string \<Rightarrow> world \<Rightarrow> world" where
  "main_single base a s w =
     (let filepath = joinpath base s in
      if path_exists filepath w then
        (case clean_html_file filepath (dry_run a) w of
           (w1, changed) \<Rightarrow>
             (let status = (if dry_run a then ''Would update''
                            else if changed then ''Updated'' else ''No changes'')
              in print (''  '' @ status @ '': '' @ s) w1))
      else print (''  File not found: '' @ s) w)"

fun batch_loop :: "path \<Rightarrow> args \<Rightarrow> path list \<Rightarrow> world \<times> nat \<Rightarrow> world \<times> nat" where
  "batch_loop base a [] (w, updated) = (w, updated)"
| "batch_loop base a (filepath # rest) (w, updated) =
     (let relative_path = relative_to filepath base in
      case clean_html_file filepath (dry_run a) w of
        (w1, changed) \<Rightarrow>
          if changed then
            (let status = (if dry_run a then ''Would update'' else ''Updated'') in
             batch_loop base a rest
               (print (''  '' @ status @ '': '' @ path_str relative_path) w1, updated + 1))
          else
            batch_loop base a rest
              (print (''  No changes: '' @ path_str relative_path) w1, updated))"

definition main_batch :: "path \<Rightarrow> args \<Rightarrow> world \<Rightarrow> world" where
  "main_batch base a w =
     (let html_files = rglob_html (POSTS_DIR base) w in
      case batch_loop base a (sort html_files) (w, 0) of
        (w1, updated) \<Rightarrow>
          (let w2 = print dashes w1;
               action = (if dry_run a then ''Would update'' else ''Updated'')
           in print (action @ '' '' @ str_nat updated @ ''/'' @ str_nat (length html_files)
                     @ '' posts'') w2))"

text \<open>\<open>if args.single:\<close> takes the single-file branch for a non-empty string only.\<close>

definition main :: "path \<Rightarrow> args \<Rightarrow> world \<Rightarrow> world" where
  "main base a w =
     (let w1 = print ''Cleaning inline styles from blog posts...'' w;
          w2 = print dashes w1
      in case single a of
           None \<Rightarrow> main_batch base a w2
         | Some s \<Rightarrow> if s \<noteq> [] then main_single base a s w2 else main_batch base a w2)"

section \<open>The File Rewriter as the specification words it\<close>

text \<open>
  Section 4.2 of the specification: start from the document text; for each rule in table order
  replace every non-overlapping match of its matcher in the current text; the changed flag says
  whether the final text differs from the original. \<open>occurrences\<close> cuts a text, from left to
  right, into the matches of a matcher (with their captured groups) and the single characters
  at which no match starts.
\<close>

fun occurrences :: "pattern \<Rightarrow> string \<Rightarrow> (string \<times> string list option) list" where
  "occurrences p [] = (case re_match p [] of None \<Rightarrow> [] | Some (gs, r) \<Rightarrow> [([], Some gs)])"
| "occurrences p (c # cs) =
     (case re_match p (c # cs) of
        None \<Rightarrow> ([c], None) # occurrences p cs
      | Some (gs, r) \<Rightarrow>
          if length r < length (c # cs)
          then (take (length (c # cs) - length r) (c # cs), Some gs) # occurrences p r
          else ([], Some gs) # ([c], None) # occurrences p cs)"

definition replace_piece :: "template \<Rightarrow> string \<times> string list option \<Rightarrow> string" where
  "replace_piece t piece = (case piece of (m, None) \<Rightarrow> m | (m, Some gs) \<Rightarrow> expand t gs)"

definition replace_all :: "pattern \<times> template \<Rightarrow> string \<Rightarrow> string" where
  "replace_all rule current =
     (case rule of (matcher, replacement) \<Rightarrow>
        concat (map (replace_piece replacement) (occurrences matcher current)))"

definition spec_rewrite :: "string \<Rightarrow> (pattern \<times> template) list \<Rightarrow> string \<times> bool" where
  "spec_rewrite document_text rule_table =
     (let current = foldl (\<lambda>current rule. replace_all rule current) document_text rule_table
      in (current, current \<noteq> document_text))"

section \<open>Lengths of patterns and templates\<close>

text \<open>The literal characters of a pattern and of a template, and the groups a template refers
  to. A rule shrinks when its template is valid, refers to no group twice and has fewer literal
  characters than its pattern.\<close>

fun lit_len :: "pattern \<Rightarrow> nat" where
  "lit_len [] = 0"
| "lit_len (Lit l # p) = length l + lit_len p"
| "lit_len (i # p) = lit_len p"

fun tlit_len :: "template \<Rightarrow> nat" where
  "tlit_len [] = 0"
| "tlit_len (TLit l # t) = length l + tlit_len t"
| "tlit_len (i # t) = tlit_len t"

fun refs :: "template \<Rightarrow> nat list" where
  "refs [] = []"
| "refs (TGroup n # t) = n # refs t"
| "refs (i # t) = refs t"

definition shrinks :: "pattern \<times> template \<Rightarrow> bool" where
  "shrinks rule = (case rule of (p, t) \<Rightarrow>
     valid_template p t \<and> distinct (refs t) \<and> tlit_len t < lit_len p)"

section \<open>Documents without a tag inside a quoted value\<close>

text \<open>
  The rule table is written for documents in which a quoted attribute value holds no tag.
  \<open>tag_safe q d\<close> reads \<open>d\<close> from left to right, \<open>q\<close> telling whether the reader stands
  inside double quotes: it holds when every \<open><\<close> is met outside quotes. \<open>in_quotes q d\<close> is
  the state after \<open>d\<close>. A document is tame when it is safe from one of the two initial states,
  that is, when between any two consecutive \<open><\<close> there is an even number of double quotes.
\<close>

definition lt :: char where "lt = CHR ''<''"

definition dq :: char where "dq = CHR 0x22"

fun in_quotes :: "bool \<Rightarrow> string \<Rightarrow> bool" where
  "in_quotes q [] = q"
| "in_quotes q (c # cs) = in_quotes (if c = dq then \<not> q else q) cs"

fun tag_safe :: "bool \<Rightarrow> string \<Rightarrow> bool" where
  "tag_safe q [] = True"
| "tag_safe q (c # cs) =
     (if c = dq then tag_safe (\<not> q) cs
      else if c = lt then \<not> q \<and> tag_safe q cs
      else tag_safe q cs)"

definition tame :: "string \<Rightarrow> bool" where
  "tame d = (tag_safe False d \<or> tag_safe True d)"

section \<open>Shape of the patterns and templates of the table\<close>

text \<open>
  The definitions below describe what all rules of the table have in common and how a
  pattern can meet the text that a template writes. They are evaluated on the table once
  (\<open>table_ok\<close>). \<open>explode\<close> cuts literals into single characters; a pattern is deterministic
  (\<open>det\<close>) when each star is followed by the character it excludes, so that backtracking never
  finds a second way to match. \<open>clash p t cs\<close> says that the pattern \<open>p\<close> cannot match at the start
  of a text written by the template \<open>t\<close>, given the characters \<open>cs\<close> that the groups exclude:
  the leading literals differ somewhere, or they agree up to a group whose value the pattern's
  star takes whole and differ behind it.
\<close>

fun explode :: "pattern \<Rightarrow> pattern" where
  "explode [] = []"
| "explode (Lit l # p) = map (\<lambda>c. Lit [c]) l @ explode p"
| "explode (NotStar c # p) = NotStar c # explode p"
| "explode (Cap c # p) = Cap c # explode p"

fun starts_with :: "char \<Rightarrow> pattern \<Rightarrow> bool" where
  "starts_with c (Lit (d # l) # p) = (d = c)"
| "starts_with c p = False"

fun det :: "pattern \<Rightarrow> bool" where
  "det [] = True"
| "det (Lit l # p) = det p"
| "det (NotStar c # p) = (starts_with c p \<and> det p)"
| "det (Cap c # p) = (starts_with c p \<and> det p)"

fun tstarts_with :: "char \<Rightarrow> template \<Rightarrow> bool" where
  "tstarts_with c (TLit (d # l) # t) = (d = c)"
| "tstarts_with c t = False"

fun unit_lits :: "pattern \<Rightarrow> bool" where
  "unit_lits [] = True"
| "unit_lits (Lit l # p) = (length l = 1 \<and> unit_lits p)"
| "unit_lits (i # p) = unit_lits p"

text \<open>
  \<open>pat_ok q p\<close>: matched from the quote state \<open>q\<close>, every star of \<open>p\<close> that excludes the double
  quote starts inside quotes and every star that excludes \<open><\<close> starts outside. \<open>inert pk tk p\<close>:
  no part of \<open>p\<close> that begins with \<open><\<close> matches at the start of a text written by the rule
  \<open>(pk, tk)\<close>.
\<close>

fun pat_ok :: "bool \<Rightarrow> pattern \<Rightarrow> bool" where
  "pat_ok q [] = True"
| "pat_ok q (Lit l # p) = pat_ok (in_quotes q l) p"
| "pat_ok q (NotStar c # p) = ((c = dq \<and> q \<or> c = lt \<and> \<not> q) \<and> pat_ok q p)"
| "pat_ok q (Cap c # p) = ((c = dq \<and> q \<or> c = lt \<and> \<not> q) \<and> pat_ok q p)"

definition inert :: "pattern \<Rightarrow> template \<Rightarrow> pattern \<Rightarrow> bool" where
  "inert pk tk p = (\<forall>p'. suffix p' p \<and> starts_with lt p' \<longrightarrow>
     (\<forall>s gs r z. re_match pk s = Some (gs, r) \<longrightarrow> re_match p' (expand tk gs @ z) = None))"

text \<open>
  A captured text is neutral when it holds no \<open><\<close> and an even number of double quotes: writing
  it anywhere changes neither safety nor the quote state. A rule is typed when its pattern is
  deterministic and well placed with respect to quotes, pattern and template begin with \<open><\<close>, and
  the literal text of the template is safe and leaves the quote state that the pattern leaves.
\<close>

definition neutral :: "string \<Rightarrow> bool" where
  "neutral g = (lt \<notin> set g \<and> in_quotes False g = False)"

fun plits :: "pattern \<Rightarrow> string" where
  "plits [] = []"
| "plits (Lit l # p) = l @ plits p"
| "plits (i # p) = plits p"

fun tlits :: "template \<Rightarrow> string" where
  "tlits [] = []"
| "tlits (TLit l # t) = l @ tlits t"
| "tlits (i # t) = tlits t"

definition rule_typed :: "pattern \<times> template \<Rightarrow> bool" where
  "rule_typed rule = (case rule of (p, t) \<Rightarrow>
     det p \<and> pat_ok False p \<and> starts_with lt p \<and> tstarts_with lt t \<and> valid_template p t \<and>
     tag_safe False (tlits t) \<and> in_quotes False (tlits t) = in_quotes False (plits p))"

text \<open>
  The literal text at the front of a pattern or template and what follows it; \<open>diverge l m\<close>
  holds when \<open>l\<close> and \<open>m\<close> differ at a position that both have; \<open>gchars p\<close> lists the characters
  that the groups of \<open>p\<close> exclude.
\<close>

fun lead :: "pattern \<Rightarrow> string" where
  "lead (Lit l # p) = l @ lead p"
| "lead p = []"

fun after_lead :: "pattern \<Rightarrow> pattern" where
  "after_lead (Lit l # p) = after_lead p"
| "after_lead p = p"

fun tlead :: "template \<Rightarrow> string" where
  "tlead (TLit l # t) = l @ tlead t"
| "tlead t = []"

fun after_tlead :: "template \<Rightarrow> template" where
  "after_tlead (TLit l # t) = after_tlead t"
| "after_tlead t = t"

fun diverge :: "string \<Rightarrow> string \<Rightarrow> bool" where
  "diverge (a # l) (b # m) = (a \<noteq> b \<or> diverge l m)"
| "diverge l m = False"

fun gchars :: "pattern \<Rightarrow> char list" where
  "gchars [] = []"
| "gchars (Cap c # p) = c # gchars p"
| "gchars (i # p) = gchars p"

fun head_clash :: "char \<Rightarrow> string \<Rightarrow> string \<Rightarrow> bool" where
  "head_clash c (c1 # b1) (c2 # b2) = (c1 = c \<and> c2 = c \<and> diverge b1 b2)"
| "head_clash c l m = False"

fun cap_clash :: "pattern \<Rightarrow> template \<Rightarrow> char list \<Rightarrow> bool" where
  "cap_clash (Cap c # p2) (TGroup n # t2) cs =
     (1 \<le> n \<and> n \<le> length cs \<and> cs ! (n - 1) = c \<and> head_clash c (lead p2) (tlead t2))"
| "cap_clash p t cs = False"

definition clash :: "pattern \<Rightarrow> template \<Rightarrow> char list \<Rightarrow> bool" where
  "clash p t cs =
     (diverge (lead p) (tlead t) \<or>
      (lead p = tlead t \<and> cap_clash (after_lead p) (after_tlead t) cs))"

text \<open>
  The parts of a template (\<open>ttails\<close>) and of a pattern (\<open>lt_tails\<close>) that begin at a \<open><\<close> of
  their literal text. A rule is compatible with a pattern \<open>pj\<close> when every such part of \<open>pj\<close>
  clashes with the rule's template and \<open>pj\<close> clashes with every such part of the template.
\<close>

fun lit_tails :: "string \<Rightarrow> template \<Rightarrow> template list" where
  "lit_tails [] t = []"
| "lit_tails (c # l) t = (if c = lt then [TLit (c # l) # t] else []) @ lit_tails l t"

fun ttails :: "template \<Rightarrow> template list" where
  "ttails [] = []"
| "ttails (TLit l # t) = lit_tails l t @ ttails t"
| "ttails (TGroup n # t) = ttails t"

definition pattern_typed :: "pattern \<Rightarrow> bool" where
  "pattern_typed p = (starts_with lt p \<and> det (explode p) \<and> pat_ok False (explode p))"

fun plit_tails :: "string \<Rightarrow> pattern \<Rightarrow> pattern list" where
  "plit_tails [] p = []"
| "plit_tails (c # l) p = (if c = lt then [Lit (c # l) # p] else []) @ plit_tails l p"

fun lt_tails :: "pattern \<Rightarrow> pattern list" where
  "lt_tails [] = []"
| "lt_tails (Lit l # p) = plit_tails l p @ lt_tails p"
| "lt_tails (i # p) = lt_tails p"

definition compatible :: "pattern \<times> template \<Rightarrow> pattern \<Rightarrow> bool" where
  "compatible rule pj = (case rule of (pk, tk) \<Rightarrow>
     list_all (\<lambda>p'. clash p' tk (gchars pk)) (lt_tails pj) \<and>
     list_all (\<lambda>t'. clash pj t' (gchars pk)) (ttails tk))"

text \<open>
  The same test on the leading texts computed once for the whole table, and the conditions on
  the table together.
\<close>

definition clash_view :: "string \<times> pattern \<Rightarrow> string \<times> template \<Rightarrow> char list \<Rightarrow> bool" where
  "clash_view pv tv cs =
     (diverge (fst pv) (fst tv) \<or> (fst pv = fst tv \<and> cap_clash (snd pv) (snd tv) cs))"

definition pview :: "pattern \<Rightarrow> string \<times> pattern" where
  "pview p = (lead p, after_lead p)"

definition tview :: "template \<Rightarrow> string \<times> template" where
  "tview t = (tlead t, after_tlead t)"

definition check_rule ::
  "(string \<times> pattern) list \<Rightarrow> (string \<times> pattern) list \<Rightarrow> char list \<Rightarrow>
     string \<times> template \<Rightarrow> (string \<times> template) list \<Rightarrow> bool" where
  "check_rule tails pats cs tv tvs =
     (list_all (\<lambda>pv. clash_view pv tv cs) tails \<and>
      list_all (\<lambda>tv'. list_all (\<lambda>pv. clash_view pv tv' cs) pats) tvs)"

fun check_rules ::
  "(string \<times> pattern) list \<Rightarrow> (string \<times> pattern) list \<Rightarrow> (pattern \<times> template) list \<Rightarrow> bool" where
  "check_rules tails pats [] = True"
| "check_rules tails pats ((pk, tk) # rules) =
     (check_rule tails pats (gchars pk) (tview tk) (map tview (ttails tk)) \<and>
      check_rules tails pats rules)"

definition compatible_table :: "(pattern \<times> template) list \<Rightarrow> bool" where
  "compatible_table rules =
     check_rules (map pview (concat (map (\<lambda>rule. lt_tails (fst rule)) rules)))
       (map (\<lambda>rule. pview (fst rule)) rules) rules"

definition table_ok :: "(pattern \<times> template) list \<Rightarrow> bool" where
  "table_ok rules =
     (list_all rule_typed rules \<and> list_all (\<lambda>rule. pattern_typed (fst rule)) rules \<and>
      compatible_table rules)"

text \<open>\<open>unmatched p s\<close>: the pattern \<open>p\<close> matches at no position of \<open>s\<close>.\<close>

definition unmatched :: "pattern \<Rightarrow> string \<Rightarrow> bool" where
  "unmatched p s = (\<forall>u. suffix u s \<longrightarrow> re_match p u = None)"

section \<open>Observations on a run\<close>

text \<open>The files read and the texts written during a run, in order, taken from the trace.\<close>

fun reads :: "event list \<Rightarrow> path list" where
  "reads [] = []"
| "reads (ReadText p # es) = p # reads es"
| "reads (e # es) = reads es"

fun writes :: "event list \<Rightarrow> (path \<times> string) list" where
  "writes [] = []"
| "writes (WriteText p s # es) = (p, s) # writes es"
| "writes (e # es) = writes es"

text \<open>\<open>main\<close> runs in batch mode when \<open>--single\<close> is absent or empty.\<close>

definition batch_mode :: "args \<Rightarrow> bool" where
  "batch_mode a = (case single a of None \<Rightarrow> True | Some s \<Rightarrow> s = [])"

text \<open>Two worlds that hold the same files and have run the same trace, whatever the order in
  which they enumerate their entries.\<close>

definition same_files :: "world \<Rightarrow> world \<Rightarrow> bool" where
  "same_files v v' = (trace v = trace v' \<and> map_of (fs v) = map_of (fs v'))"

text \<open>A small site for the examples: two posts, of which \<open>b.html\<close> carries a legacy table.\<close>

definition demo_world :: world where
  \<open>demo_world =
     \<lparr>fs = [([''site'', ''posts'', ''b.html''],
               \<lparr>on_read = Inr ''<table style="width:100%">'', on_write = None\<rparr>),
             ([''site'', ''posts'', ''a.html''],
               \<lparr>on_read = Inr ''<p>plain text</p>'', on_write = None\<rparr>)],
      trace = []\<rparr>\<close>

definition demo_world_reordered :: world where
  \<open>demo_world_reordered =
     \<lparr>fs = [([''site'', ''posts'', ''a.html''],
               \<lparr>on_read = Inr ''<p>plain text</p>'', on_write = None\<rparr>),
             ([''site'', ''posts'', ''b.html''],
               \<lparr>on_read = Inr ''<table style="width:100%">'', on_write = None\<rparr>)],
      trace = []\<rparr>\<close>

section \<open>Properties\<close>

subsection \<open>Traces and the file system\<close>

lemma printed_append: "printed (es @ es2) = printed es @ printed es2"
  by (induction es rule: printed.induct) simp_all

lemma reads_append: "reads (es @ es2) = reads es @ reads es2"
  by (induction es rule: reads.induct) simp_all

lemma writes_append: "writes (es @ es2) = writes es @ writes es2"
  by (induction es rule: writes.induct) simp_all

lemma print_simps:
  "fs (print s w) = fs w" "trace (print s w) = trace w @ [Print s]"
  by (simp_all add: print_def)

lemma read_text_fst: "fst (read_text p w) = w\<lparr>trace := trace w @ [ReadText p]\<rparr>"
  by (simp add: read_text_def)

lemma clean_try_dry:
  "clean_html_file_try p True w = (w1, r) \<Longrightarrow>
     fs w1 = fs w \<and> writes (trace w1) = writes (trace w)"
  by (auto simp: clean_html_file_try_def read_text_def writes_append Let_def
           split: sum.splits option.splits if_splits)

lemma clean_dry:
  assumes "clean_html_file p True w = (w1, changed)"
  shows "fs w1 = fs w \<and> writes (trace w1) = writes (trace w)"
proof (cases "clean_html_file_try p True w")
  case (Pair v r)
  from clean_try_dry [OF Pair] have v: "fs v = fs w" "writes (trace v) = writes (trace w)"
    by simp_all
  show ?thesis
  proof (cases r)
    case (Inl e)
    then show ?thesis using assms Pair v
      by (cases e) (auto simp: clean_html_file_def print_simps writes_append)
  next
    case (Inr c)
    then show ?thesis using assms Pair v
      by (auto simp: clean_html_file_def)
  qed
qed

lemma batch_loop_dry:
  "dry_run a \<Longrightarrow> fs (fst (batch_loop base a ps (w, n))) = fs w \<and>
     writes (trace (fst (batch_loop base a ps (w, n)))) = writes (trace w)"
proof (induction ps arbitrary: w n)
  case Nil
  then show ?case by simp
next
  case (Cons p ps)
  obtain w1 changed where c: "clean_html_file p True w = (w1, changed)"
    by (cases "clean_html_file p True w")
  from clean_dry [OF c] have w1: "fs w1 = fs w" "writes (trace w1) = writes (trace w)"
    by simp_all
  show ?case
  proof (cases changed)
    case True
    then show ?thesis
      using Cons.prems c w1
        Cons.IH [OF Cons.prems, of "print (''  Would update: '' @ path_str (relative_to p base)) w1" "n + 1"]
      by (simp add: print_simps writes_append)
  next
    case False
    then show ?thesis
      using Cons.prems c w1
        Cons.IH [OF Cons.prems, of "print (''  No changes: '' @ path_str (relative_to p base)) w1" n]
      by (simp add: print_simps writes_append)
  qed
qed

lemma clean_try_reads:
  "clean_html_file_try p d w = (w1, r) \<Longrightarrow> reads (trace w1) = reads (trace w) @ [p]"
  by (auto simp: clean_html_file_try_def read_text_def write_text_def reads_append Let_def
           split: sum.splits option.splits if_splits)

lemma clean_reads:
  assumes "clean_html_file p d w = (w1, changed)"
  shows "reads (trace w1) = reads (trace w) @ [p]"
proof (cases "clean_html_file_try p d w")
  case (Pair v r)
  note v = clean_try_reads [OF Pair]
  show ?thesis
  proof (cases r)
    case (Inl e)
    then show ?thesis using assms Pair v
      by (cases e) (auto simp: clean_html_file_def print_simps reads_append)
  next
    case (Inr c)
    then show ?thesis using assms Pair v
      by (auto simp: clean_html_file_def)
  qed
qed

lemma batch_loop_reads:
  "reads (trace (fst (batch_loop base a ps (w, n)))) = reads (trace w) @ ps"
proof (induction ps arbitrary: w n)
  case Nil
  then show ?case by simp
next
  case (Cons p ps)
  obtain w1 changed where c: "clean_html_file p (dry_run a) w = (w1, changed)"
    by (cases "clean_html_file p (dry_run a) w")
  note r = clean_reads [OF c]
  show ?case
    using c r Cons.IH
    by (simp add: print_simps reads_append Let_def)
qed

lemma clean_read_fails:
  assumes "snd (read_text p w) = Inl (Exn msg)"
  shows "clean_html_file p d w =
    (print (''Error processing '' @ path_str p @ '': '' @ msg) (fst (read_text p w)), False)"
proof -
  obtain w1 r where rt: "read_text p w = (w1, r)"
    by (cases "read_text p w")
  with assms have r: "r = Inl (Exn msg)" and w1: "fst (read_text p w) = w1"
    by simp_all
  from rt r have "clean_html_file_try p d w = (w1, Inl (Exn msg))"
    by (simp add: clean_html_file_try_def)
  then show ?thesis
    unfolding w1 by (simp add: clean_html_file_def)
qed

lemma sim_try:
  assumes "same_files v v'"
    and "clean_html_file_try p d v = (v1, r)"
    and "clean_html_file_try p d v' = (v1', r')"
  shows "same_files v1 v1' \<and> r = r'"
  using assms
  by (auto simp: same_files_def clean_html_file_try_def read_text_def write_text_def Let_def
        update_conv' split: sum.splits option.splits if_splits)

lemma sim_clean:
  assumes "same_files v v'"
    and "clean_html_file p d v = (v1, c)"
    and "clean_html_file p d v' = (v1', c')"
  shows "same_files v1 v1' \<and> c = c'"
proof -
  obtain u r where u: "clean_html_file_try p d v = (u, r)"
    by (cases "clean_html_file_try p d v")
  obtain u' r' where u': "clean_html_file_try p d v' = (u', r')"
    by (cases "clean_html_file_try p d v'")
  from sim_try [OF assms(1) u u'] have s: "same_files u u'" and r: "r = r'"
    by simp_all
  show ?thesis
  proof (cases r)
    case (Inl e)
    then show ?thesis using assms(2,3) u u' s r
      by (cases e) (auto simp: clean_html_file_def same_files_def print_simps)
  next
    case (Inr b)
    then show ?thesis using assms(2,3) u u' s r
      by (auto simp: clean_html_file_def)
  qed
qed

lemma same_files_print: "same_files v v' \<Longrightarrow> same_files (print s v) (print s v')"
  by (simp add: same_files_def print_simps)

lemma sim_loop:
  "same_files v v' \<Longrightarrow>
   same_files (fst (batch_loop base a ps (v, n))) (fst (batch_loop base a ps (v', n))) \<and>
   snd (batch_loop base a ps (v, n)) = snd (batch_loop base a ps (v', n))"
proof (induction ps arbitrary: v v' n)
  case Nil
  then show ?case by simp
next
  case (Cons p ps)
  obtain v1 c where c: "clean_html_file p (dry_run a) v = (v1, c)"
    by (cases "clean_html_file p (dry_run a) v")
  obtain v1' c' where c': "clean_html_file p (dry_run a) v' = (v1', c')"
    by (cases "clean_html_file p (dry_run a) v'")
  from sim_clean [OF Cons.prems c c'] have s: "same_files v1 v1'" and cc: "c' = c"
    by simp_all
  show ?case
    using c c' cc Cons.IH [OF same_files_print [OF s]]
    by (simp add: Let_def)
qed

lemma sort_rglob_perm:
  assumes "mset (fs w') = mset (fs w)"
  shows "sort (rglob_html dir w') = sort (rglob_html dir w)"
    and "length (rglob_html dir w') = length (rglob_html dir w)"
proof -
  from assms have "mset (map fst (fs w')) = mset (map fst (fs w))"
    by (metis mset_map)
  then have m: "mset (rglob_html dir w') = mset (rglob_html dir w)"
    unfolding rglob_html_def mset_filter by simp
  show "sort (rglob_html dir w') = sort (rglob_html dir w)"
    by (rule properties_for_sort) (simp_all add: m)
  from m show "length (rglob_html dir w') = length (rglob_html dir w)"
    by (rule mset_eq_length)
qed

lemma map_of_perm:
  assumes "mset (fs w') = mset (fs w)" and "distinct (map fst (fs w))"
  shows "map_of (fs w') = map_of (fs w)"
proof -
  from assms(1) have "mset (map fst (fs w')) = mset (map fst (fs w))"
    by (metis mset_map)
  with assms(2) have d: "distinct (map fst (fs w'))"
    by (metis mset_eq_imp_distinct_iff)
  from assms(1) have "set (fs w') = set (fs w)"
    by (rule mset_eq_setD)
  with d assms(2) show ?thesis
    by (simp add: map_of_inject_set)
qed

lemma main_batch_trace:
  "trace (main_batch base a v) =
     trace (fst (batch_loop base a (sort (rglob_html (POSTS_DIR base) v)) (v, 0))) @
     [Print dashes,
      Print ((if dry_run a then ''Would update'' else ''Updated'') @ '' '' @
        str_nat (snd (batch_loop base a (sort (rglob_html (POSTS_DIR base) v)) (v, 0))) @ ''/'' @
        str_nat (length (rglob_html (POSTS_DIR base) v)) @ '' posts'')]"
  by (cases "batch_loop base a (sort (rglob_html (POSTS_DIR base) v)) (v, 0)")
     (simp add: main_batch_def Let_def print_simps)

lemma main_batch_mode:
  "batch_mode a \<Longrightarrow> main base a w =
     main_batch base a (print dashes (print ''Cleaning inline styles from blog posts...'' w))"
  by (auto simp: main_def batch_mode_def Let_def split: option.splits)

lemma rglob_print: "rglob_html dir (print s w) = rglob_html dir w"
  by (simp add: rglob_html_def print_simps)

lemma try_snd_local:
  "map_of (fs v) p = map_of (fs w) p \<Longrightarrow>
   snd (clean_html_file_try p d v) = snd (clean_html_file_try p d w)"
  by (auto simp: clean_html_file_try_def read_text_def write_text_def Let_def
        split: sum.splits option.splits if_splits)

lemma clean_snd_try:
  "snd (clean_html_file p d w) =
     (case snd (clean_html_file_try p d w) of Inl e \<Rightarrow> False | Inr c \<Rightarrow> c)"
proof (cases "clean_html_file_try p d w")
  case (Pair u r)
  then show ?thesis
  proof (cases r)
    case (Inl e)
    with Pair show ?thesis by (cases e) (simp add: clean_html_file_def)
  next
    case (Inr c)
    with Pair show ?thesis by (simp add: clean_html_file_def)
  qed
qed

lemma clean_snd_local:
  "map_of (fs v) p = map_of (fs w) p \<Longrightarrow>
   snd (clean_html_file p d v) = snd (clean_html_file p d w)"
  by (simp add: clean_snd_try try_snd_local [of v p w d])

lemma try_frame:
  "clean_html_file_try q d w = (w1, r) \<Longrightarrow> p \<noteq> q \<Longrightarrow> map_of (fs w1) p = map_of (fs w) p"
  by (auto simp: clean_html_file_try_def read_text_def write_text_def Let_def update_conv'
        split: sum.splits option.splits if_splits)

lemma clean_frame:
  assumes "clean_html_file q d w = (w1, c)" and "p \<noteq> q"
  shows "map_of (fs w1) p = map_of (fs w) p"
proof (cases "clean_html_file_try q d w")
  case (Pair u r)
  note u = try_frame [OF Pair assms(2)]
  show ?thesis
  proof (cases r)
    case (Inl e)
    then show ?thesis using assms(1) Pair u
      by (cases e) (auto simp: clean_html_file_def print_simps)
  next
    case (Inr b)
    then show ?thesis using assms(1) Pair u
      by (auto simp: clean_html_file_def)
  qed
qed

lemma batch_loop_count:
  "distinct ps \<Longrightarrow> \<forall>p \<in> set ps. map_of (fs v) p = map_of (fs w) p \<Longrightarrow>
   snd (batch_loop base a ps (v, n)) =
     n + length (filter (\<lambda>p. snd (clean_html_file p (dry_run a) w)) ps)"
proof (induction ps arbitrary: v n)
  case Nil
  then show ?case by simp
next
  case (Cons q ps)
  obtain v1 c where c: "clean_html_file q (dry_run a) v = (v1, c)"
    by (cases "clean_html_file q (dry_run a) v")
  have cq: "c = snd (clean_html_file q (dry_run a) w)"
    using clean_snd_local [of v q w "dry_run a"] Cons.prems(2) c by simp
  have fr: "\<forall>p \<in> set ps. map_of (fs (print s v1)) p = map_of (fs w) p" for s
  proof
    fix p assume p: "p \<in> set ps"
    with Cons.prems(1) have "p \<noteq> q" by auto
    from clean_frame [OF c this] p Cons.prems(2)
    show "map_of (fs (print s v1)) p = map_of (fs w) p"
      by (simp add: print_simps)
  qed
  from Cons.prems(1) have d: "distinct ps" by simp
  show ?case
    using c cq Cons.IH [OF d fr]
    by (simp add: Let_def)
qed

subsection \<open>The claims about files and console\<close>

text \<open>C3 (dry-run purity): with the dry-run flag set, a run of \<open>main\<close>, in either mode, leaves
  the stored files as they were and calls \<open>write_text\<close> on no file, whatever it reports.\<close>

theorem dry_run_purity:
  "dry_run a \<Longrightarrow> fs (main base a w) = fs w \<and> writes (trace (main base a w)) = writes (trace w)"
proof -
  assume d: "dry_run a"
  have s: "fs (main_single base a s v) = fs v \<and>
           writes (trace (main_single base a s v)) = writes (trace v)" for s v
  proof (cases "clean_html_file (joinpath base s) True v")
    case (Pair v1 changed)
    from clean_dry [OF Pair] show ?thesis using d Pair
      by (simp add: main_single_def Let_def print_simps writes_append)
  qed
  have b: "fs (main_batch base a v) = fs v \<and>
           writes (trace (main_batch base a v)) = writes (trace v)" for v
  proof (cases "batch_loop base a (sort (rglob_html (POSTS_DIR base) v)) (v, 0)")
    case (Pair v1 updated)
    with batch_loop_dry [OF d, of base "sort (rglob_html (POSTS_DIR base) v)" v 0]
    show ?thesis
      by (simp add: main_batch_def Let_def print_simps writes_append)
  qed
  show ?thesis
    by (simp add: main_def Let_def s b print_simps writes_append split: option.splits)
qed

theorem dry_run_purity_witness:
  "dry_run \<lparr>dry_run = True, single = None\<rparr> \<and>
   fs (main [''site''] \<lparr>dry_run = True, single = None\<rparr> demo_world) = fs demo_world \<and>
   writes (trace (main [''site''] \<lparr>dry_run = True, single = None\<rparr> demo_world)) =
     writes (trace demo_world)"
  using dry_run_purity [of "\<lparr>dry_run = True, single = None\<rparr>" "[''site'']" demo_world]
  by simp

text \<open>C4 (read failures stay local): when \<open>read_text\<close> raises, \<open>clean_html_file\<close> prints the
  error with the file's path and returns \<open>False\<close>; in the batch loop the file counts as not
  updated, the loop goes on with the remaining files, and every file of the list is read.\<close>

theorem read_failure_is_local:
  assumes "snd (read_text p w) = Inl (Exn msg)"
  shows "clean_html_file p d w =
           (print (''Error processing '' @ path_str p @ '': '' @ msg) (fst (read_text p w)), False)
       \<and> batch_loop base a (p # rest) (w, n) =
           batch_loop base a rest
             (print (''  No changes: '' @ path_str (relative_to p base))
                (print (''Error processing '' @ path_str p @ '': '' @ msg) (fst (read_text p w))), n)
       \<and> reads (trace (fst (batch_loop base a (p # rest) (w, n)))) = reads (trace w) @ p # rest"
  using clean_read_fails [OF assms] batch_loop_reads [of base a "p # rest" w n]
  by simp

theorem read_failure_is_local_witness:
  "snd (read_text [''site'', ''posts'', ''gone.html''] demo_world)
     = Inl (Exn ''No such file or directory'') \<and>
   clean_html_file [''site'', ''posts'', ''gone.html''] False demo_world =
     (print (''Error processing '' @ path_str [''site'', ''posts'', ''gone.html''] @ '': '' @
              ''No such file or directory'')
        (fst (read_text [''site'', ''posts'', ''gone.html''] demo_world)), False)"
proof -
  have h: "snd (read_text [''site'', ''posts'', ''gone.html''] demo_world)
     = Inl (Exn ''No such file or directory'')"
    by (simp add: read_text_def demo_world_def)
  from read_failure_is_local [OF h, of False] h show ?thesis
    by blast
qed



text \<open>C6 (status of an unchanged file): in single-file mode with the dry-run flag, a file that
  the rewrite leaves unchanged (\<open>clean_html_file\<close> returns \<open>False\<close>) is reported as
  \<open>Would update\<close>, not as \<open>No changes\<close>; the batch loop reports the same file as
  \<open>No changes\<close>.\<close>

theorem single_dry_run_status:
  "snd (clean_html_file [''site'', ''posts'', ''a.html''] True demo_world) = False \<and>
   console (main [''site''] \<lparr>dry_run = True, single = Some ''posts/a.html''\<rparr> demo_world) =
     [''Cleaning inline styles from blog posts...'', dashes, ''  Would update: posts/a.html'']"
  by code_simp

text \<open>C7 (summary line): the last line of a batch run is not of the form
  \<open><Updated|Would update> <updated>/<total>\<close>: it ends in \<open>posts\<close>.\<close>

theorem summary_line_counterexample:
  "last (console (main [''site''] \<lparr>dry_run = False, single = None\<rparr> \<lparr>fs = [], trace = []\<rparr>))
     = ''Updated 0/0 posts'' \<and>
   ''Updated 0/0'' \<notin> set (console (main [''site''] \<lparr>dry_run = False, single = None\<rparr>
     \<lparr>fs = [], trace = []\<rparr>))"
  by code_simp

text \<open>C7 as amended: a batch run ends with the line of dashes and one summary line
  \<open><Updated|Would update> <updated>/<total> posts\<close>, where \<open>updated\<close> counts the discovered
  files for which \<open>clean_html_file\<close> returns \<open>True\<close>, \<open>total\<close> counts the discovered files, and
  the word is \<open>Would update\<close> exactly with the dry-run flag.\<close>

theorem batch_summary_line:
  assumes "batch_mode a" and "distinct (map fst (fs w))"
  shows "console (main base a w) =
     console (fst (batch_loop base a (sort (rglob_html (POSTS_DIR base) w))
                (print dashes (print ''Cleaning inline styles from blog posts...'' w), 0))) @
     [dashes,
      (if dry_run a then ''Would update'' else ''Updated'') @ '' '' @
      str_nat (length (filter (\<lambda>p. snd (clean_html_file p (dry_run a) w))
                 (rglob_html (POSTS_DIR base) w))) @ ''/'' @
      str_nat (length (rglob_html (POSTS_DIR base) w)) @ '' posts'']"
proof -
  let ?v = "print dashes (print ''Cleaning inline styles from blog posts...'' w)"
  let ?files = "rglob_html (POSTS_DIR base) w"
  let ?P = "\<lambda>p. snd (clean_html_file p (dry_run a) w)"
  from assms(2) have "distinct ?files"
    by (simp add: rglob_html_def)
  then have d: "distinct (sort ?files)"
    by simp
  have "snd (batch_loop base a (sort ?files) (?v, 0)) = 0 + length (filter ?P (sort ?files))"
    by (rule batch_loop_count [OF d]) (simp add: print_simps)
  also have "filter ?P (sort ?files) = sort (filter ?P ?files)"
    by (rule filter_sort)
  finally have n: "snd (batch_loop base a (sort ?files) (?v, 0)) = length (filter ?P ?files)"
    by simp
  show ?thesis
    by (simp add: main_batch_mode [OF assms(1)] main_batch_trace console_def printed_append
          rglob_print n)
qed

theorem batch_summary_line_witness:
  "batch_mode \<lparr>dry_run = False, single = None\<rparr> \<and> distinct (map fst (fs demo_world)) \<and>
   console (main [''site''] \<lparr>dry_run = False, single = None\<rparr> demo_world) =
     console (fst (batch_loop [''site''] \<lparr>dry_run = False, single = None\<rparr>
                (sort (rglob_html (POSTS_DIR [''site'']) demo_world))
                (print dashes (print ''Cleaning inline styles from blog posts...'' demo_world), 0))) @
     [dashes,
      (if dry_run \<lparr>dry_run = False, single = None\<rparr> then ''Would update'' else ''Updated'') @ '' '' @
      str_nat (length (filter (\<lambda>p. snd (clean_html_file p
                 (dry_run \<lparr>dry_run = False, single = None\<rparr>) demo_world))
                 (rglob_html (POSTS_DIR [''site'']) demo_world))) @ ''/'' @
      str_nat (length (rglob_html (POSTS_DIR [''site'']) demo_world)) @ '' posts'']"
proof -
  have h1: "batch_mode \<lparr>dry_run = False, single = None\<rparr>"
    by (simp add: batch_mode_def)
  have h2: "distinct (map fst (fs demo_world))"
    by (simp add: demo_world_def)
  from batch_summary_line [OF h1 h2, of "[''site'']"] h1 h2 show ?thesis
    by blast
qed

text \<open>C8 (deterministic traversal): a batch run reads the discovered files in sorted order,
  and two batch runs over the same files, enumerated by the system in any order, print the
  same console lines.\<close>

theorem deterministic_traversal:
  assumes "batch_mode a" and "distinct (map fst (fs w))"
    and "mset (fs w') = mset (fs w)" and "trace w' = trace w"
  shows "console (main base a w') = console (main base a w) \<and>
         reads (trace (main base a w)) = reads (trace w) @ sort (rglob_html (POSTS_DIR base) w)"
proof -
  let ?hdr = "''Cleaning inline styles from blog posts...''"
  let ?v = "print dashes (print ?hdr w)" and ?v' = "print dashes (print ?hdr w')"
  have s: "same_files ?v ?v'"
    using map_of_perm [OF assms(3,2)] assms(4)
    by (simp add: same_files_def print_simps)
  have f: "sort (rglob_html (POSTS_DIR base) ?v') = sort (rglob_html (POSTS_DIR base) ?v)"
    and l: "length (rglob_html (POSTS_DIR base) ?v') = length (rglob_html (POSTS_DIR base) ?v)"
    using sort_rglob_perm [OF assms(3), of "POSTS_DIR base"] by (simp_all add: rglob_print)
  from sim_loop [OF s, of base a "sort (rglob_html (POSTS_DIR base) ?v)" 0]
  have "trace (main_batch base a ?v') = trace (main_batch base a ?v)"
    by (simp add: main_batch_trace f l same_files_def)
  then have 1: "console (main base a w') = console (main base a w)"
    by (simp add: main_batch_mode [OF assms(1)] console_def)
  have 2: "reads (trace (main base a w)) = reads (trace w) @ sort (rglob_html (POSTS_DIR base) w)"
    by (simp add: main_batch_mode [OF assms(1)] main_batch_trace batch_loop_reads reads_append
          print_simps rglob_print)
  from 1 2 show ?thesis ..
qed

theorem deterministic_traversal_witness:
  "batch_mode \<lparr>dry_run = False, single = None\<rparr> \<and> distinct (map fst (fs demo_world)) \<and>
   mset (fs demo_world_reordered) = mset (fs demo_world) \<and>
   trace demo_world_reordered = trace demo_world \<and>
   console (main [''site''] \<lparr>dry_run = False, single = None\<rparr> demo_world_reordered) =
     console (main [''site''] \<lparr>dry_run = False, single = None\<rparr> demo_world) \<and>
   reads (trace (main [''site''] \<lparr>dry_run = False, single = None\<rparr> demo_world)) =
     reads (trace demo_world) @ sort (rglob_html (POSTS_DIR [''site'']) demo_world)"
proof -
  have h1: "batch_mode \<lparr>dry_run = False, single = None\<rparr>"
    by (simp add: batch_mode_def)
  have h2: "distinct (map fst (fs demo_world))"
    by (simp add: demo_world_def)
  have h3: "mset (fs demo_world_reordered) = mset (fs demo_world)"
    by (simp add: demo_world_def demo_world_reordered_def)
  have h4: "trace demo_world_reordered = trace demo_world"
    by (simp add: demo_world_def demo_world_reordered_def)
  from deterministic_traversal [OF h1 h2 h3 h4, of "[''site'']"] h1 h2 h3 h4 show ?thesis
    by blast
qed

subsection \<open>Matching, substitution and lengths\<close>

lemma first_some_SomeD:
  "first_some f xs = Some y \<Longrightarrow> \<exists>x \<in> set xs. f x = Some y"
  by (induction xs) (auto split: option.splits)

lemma splits_append: "(u, v) \<in> set (splits c s) \<Longrightarrow> u @ v = s"
  by (auto simp: splits_def)

lemma re_match_length:
  "re_match p s = Some (gs, r) \<Longrightarrow>
     length gs = ngroups p \<and> lit_len p + sum_list (map length gs) + length r \<le> length s"
proof (induction p arbitrary: s gs r)
  case Nil
  then show ?case by simp
next
  case (Cons i p)
  show ?case
  proof (cases i)
    case (Lit l)
    with Cons.prems have pre: "prefix l s" and m: "re_match p (drop (length l) s) = Some (gs, r)"
      by (simp_all split: if_splits)
    from pre have "length l \<le> length s" by (rule prefix_length_le)
    with Cons.IH [OF m] Lit show ?thesis by (simp, arith)
  next
    case (NotStar c)
    with Cons.prems obtain u v where uv: "(u, v) \<in> set (splits c s)" and m: "re_match p v = Some (gs, r)"
      by (auto dest!: first_some_SomeD)
    from splits_append [OF uv] have "length s = length u + length v" by auto
    with Cons.IH [OF m] NotStar show ?thesis by simp
  next
    case (Cap c)
    with Cons.prems obtain u v gs' where uv: "(u, v) \<in> set (splits c s)"
      and m: "re_match p v = Some (gs', r)" and gs: "gs = u # gs'"
      by (auto dest!: first_some_SomeD)
    from splits_append [OF uv] have "length s = length u + length v" by auto
    with Cons.IH [OF m] Cap gs show ?thesis by simp
  qed
qed

lemma expand_length:
  "length (expand t gs) = tlit_len t + sum_list (map (\<lambda>n. length (gs ! (n - 1))) (refs t))"
  by (induction t gs rule: expand.induct) simp_all

lemma valid_template_refs:
  "valid_template p t \<Longrightarrow> \<forall>n \<in> set (refs t). 1 \<le> n \<and> n \<le> ngroups p"
  by (induction p t rule: valid_template.induct) auto

lemma refs_sum_le:
  assumes "distinct ns" and "\<forall>n \<in> set ns. 1 \<le> n \<and> n \<le> length gs"
  shows "sum_list (map (\<lambda>n. length (gs ! (n - 1))) ns) \<le> sum_list (map length gs)"
proof -
  have "sum_list (map (\<lambda>n. length (gs ! (n - 1))) ns) = (\<Sum>n \<in> set ns. length (gs ! (n - 1)))"
    using assms(1) by (simp add: sum_list_distinct_conv_sum_set)
  also have "\<dots> = (\<Sum>i \<in> (\<lambda>n. n - 1) ` set ns. length (gs ! i))"
  proof (rule sum.reindex_cong [symmetric, where l = "\<lambda>n. n - 1"])
    show "inj_on (\<lambda>n. n - 1) (set ns)"
    proof (rule inj_onI)
      fix x y assume "x \<in> set ns" "y \<in> set ns" and e: "x - 1 = y - 1"
      with assms(2) have "1 \<le> x" "1 \<le> y" by auto
      with e show "x = y" by arith
    qed
  qed simp_all
  also have "\<dots> \<le> (\<Sum>i \<in> {..<length gs}. length (gs ! i))"
  proof (rule sum_mono2)
    show "(\<lambda>n. n - 1) ` set ns \<subseteq> {..<length gs}"
      using assms(2) by auto
  qed simp_all
  also have "\<dots> = sum_list (map length gs)"
    by (simp add: sum_list_sum_nth atLeast0LessThan)
  finally show ?thesis .
qed

lemma shrinks_match:
  assumes "shrinks (p, t)" and "re_match p s = Some (gs, r)"
  shows "length (expand t gs) + length r < length s"
proof -
  from assms(1) have v: "valid_template p t" and d: "distinct (refs t)"
    and l: "tlit_len t < lit_len p"
    by (simp_all add: shrinks_def)
  from re_match_length [OF assms(2)] have n: "length gs = ngroups p"
    and b: "lit_len p + sum_list (map length gs) + length r \<le> length s"
    by simp_all
  from valid_template_refs [OF v] n have "\<forall>n \<in> set (refs t). 1 \<le> n \<and> n \<le> length gs"
    by simp
  from refs_sum_le [OF d this] l b show ?thesis
    by (simp add: expand_length)
qed

lemma sub_from_shrinks:
  "shrinks (p, t) \<Longrightarrow>
     length (sub_from p t s) \<le> length s \<and>
     (sub_from p t s \<noteq> s \<longrightarrow> length (sub_from p t s) < length s)"
proof (induction p t s rule: sub_from.induct)
  case (1 p t)
  show ?case
  proof (cases "re_match p []")
    case None
    then show ?thesis by simp
  next
    case (Some a)
    then obtain gs r where "re_match p [] = Some (gs, r)" by (cases a) auto
    from shrinks_match [OF 1 this] show ?thesis by simp
  qed
next
  case (2 p t c cs)
  show ?case
  proof (cases "re_match p (c # cs)")
    case None
    with "2.IH"(1) [OF None "2.prems"] show ?thesis by auto
  next
    case (Some a)
    then obtain gs r where m: "re_match p (c # cs) = Some (gs, r)" by (cases a) auto
    from shrinks_match [OF "2.prems" m] have l: "length (expand t gs) + length r < length (c # cs)" .
    then have lr: "length r < length (c # cs)" by simp
    from "2.IH"(2) [OF m refl lr "2.prems"] have "length (sub_from p t r) \<le> length r" by simp
    with l m lr show ?thesis by auto
  qed
qed

lemma shrinks_table: "list_all shrinks REPLACEMENTS"
  by code_simp

lemma apply_replacements_foldl:
  "list_all shrinks rules \<Longrightarrow>
   apply_replacements rules d = Inr (foldl (\<lambda>cur (p, t). sub_from p t cur) d rules)"
proof (induction rules arbitrary: d)
  case Nil
  then show ?case by simp
next
  case (Cons rule rules)
  obtain p t where r: "rule = (p, t)" by (cases rule)
  with Cons.prems have "shrinks (p, t)" and rest: "list_all shrinks rules"
    by simp_all
  then have "valid_template p t"
    by (simp add: shrinks_def)
  with Cons.IH [OF rest] r show ?case
    by (simp add: re_sub_def)
qed

lemma foldl_shrinks:
  "list_all shrinks rules \<Longrightarrow>
   length (foldl (\<lambda>cur (p, t). sub_from p t cur) d rules) \<le> length d \<and>
   (foldl (\<lambda>cur (p, t). sub_from p t cur) d rules \<noteq> d \<longrightarrow>
      length (foldl (\<lambda>cur (p, t). sub_from p t cur) d rules) < length d)"
proof (induction rules arbitrary: d)
  case Nil
  then show ?case by simp
next
  case (Cons rule rules)
  obtain p t where r: "rule = (p, t)" by (cases rule)
  with Cons.prems have s: "shrinks (p, t)" and rest: "list_all shrinks rules"
    by simp_all
  let ?d1 = "sub_from p t d"
  let ?f = "foldl (\<lambda>cur (p, t). sub_from p t cur) ?d1 rules"
  from sub_from_shrinks [OF s, of d]
  have a: "length ?d1 \<le> length d" and a': "?d1 \<noteq> d \<Longrightarrow> length ?d1 < length d"
    by simp_all
  from Cons.IH [OF rest, of ?d1]
  have b: "length ?f \<le> length ?d1" and b': "?f \<noteq> ?d1 \<Longrightarrow> length ?f < length ?d1"
    by simp_all
  have "length ?f \<le> length d" using a b by simp
  moreover have "length ?f < length d" if "?f \<noteq> d"
  proof (cases "?d1 = d")
    case True
    with that b' have "length ?f < length ?d1" by simp
    with a show ?thesis by simp
  next
    case False
    from a' [OF False] b show ?thesis by simp
  qed
  ultimately show ?case using r by simp
qed

lemma re_match_suffix: "re_match p s = Some (gs, r) \<Longrightarrow> suffix r s"
proof (induction p arbitrary: s gs r)
  case Nil
  then show ?case by simp
next
  case (Cons i p)
  show ?case
  proof (cases i)
    case (Lit l)
    with Cons.prems have "re_match p (drop (length l) s) = Some (gs, r)"
      by (simp split: if_splits)
    from Cons.IH [OF this] show ?thesis
      by (metis suffix_drop suffix_order.trans)
  next
    case (NotStar c)
    with Cons.prems obtain u v where uv: "(u, v) \<in> set (splits c s)" and m: "re_match p v = Some (gs, r)"
      by (auto dest!: first_some_SomeD)
    from splits_append [OF uv] have "suffix v s" by (auto simp: suffix_def)
    with Cons.IH [OF m] show ?thesis by (rule suffix_order.trans)
  next
    case (Cap c)
    with Cons.prems obtain u v gs' where uv: "(u, v) \<in> set (splits c s)"
      and m: "re_match p v = Some (gs', r)"
      by (auto dest!: first_some_SomeD)
    from splits_append [OF uv] have "suffix v s" by (auto simp: suffix_def)
    with Cons.IH [OF m] show ?thesis by (rule suffix_order.trans)
  qed
qed

lemma suffix_take_append: "suffix r s \<Longrightarrow> take (length s - length r) s @ r = s"
  by (auto simp: suffix_def)

lemma occurrences_partition: "concat (map fst (occurrences p s)) = s"
proof (induction p s rule: occurrences.induct)
  case (1 p)
  then show ?case by (simp split: option.splits)
next
  case (2 p c cs)
  show ?case
  proof (cases "re_match p (c # cs)")
    case None
    with "2.IH"(1) show ?thesis by simp
  next
    case (Some a)
    then obtain gs r where m: "re_match p (c # cs) = Some (gs, r)" by (cases a) auto
    show ?thesis
    proof (cases "length r < length (c # cs)")
      case True
      from "2.IH"(2) [OF m refl True] suffix_take_append [OF re_match_suffix [OF m]] m True
      show ?thesis by simp
    next
      case False
      from "2.IH"(3) [OF m refl False] m False show ?thesis by simp
    qed
  qed
qed

lemma suffix_not_shorter: "suffix r s \<Longrightarrow> \<not> length r < length s \<Longrightarrow> r = s"
  by (auto simp: suffix_def)

lemma occurrences_match:
  "(m, Some gs) \<in> set (occurrences p s) \<Longrightarrow> \<exists>r. re_match p (m @ r) = Some (gs, r)"
proof (induction p s rule: occurrences.induct)
  case (1 p)
  then obtain r where m: "re_match p [] = Some (gs, r)" and e: "m = []"
    by (cases "re_match p []") auto
  from re_match_suffix [OF m] have "r = []" by simp
  with m e show ?case by auto
next
  case (2 p c cs)
  show ?case
  proof (cases "re_match p (c # cs)")
    case None
    with "2.IH"(1) "2.prems" show ?thesis by auto
  next
    case (Some a)
    then obtain gs' r where m: "re_match p (c # cs) = Some (gs', r)" by (cases a) auto
    show ?thesis
    proof (cases "length r < length (c # cs)")
      case True
      with m "2.prems" have
        "(m = take (length (c # cs) - length r) (c # cs) \<and> gs = gs') \<or>
         (m, Some gs) \<in> set (occurrences p r)"
        by auto
      then show ?thesis
      proof
        assume e: "m = take (length (c # cs) - length r) (c # cs) \<and> gs = gs'"
        with suffix_take_append [OF re_match_suffix [OF m]] have "m @ r = c # cs" by simp
        with m e show ?thesis by metis
      next
        assume "(m, Some gs) \<in> set (occurrences p r)"
        from "2.IH"(2) [OF m refl True this] show ?thesis .
      qed
    next
      case False
      with m "2.prems" have
        "(m = [] \<and> gs = gs') \<or> (m, Some gs) \<in> set (occurrences p cs)"
        by auto
      then show ?thesis
      proof
        assume e: "m = [] \<and> gs = gs'"
        from suffix_not_shorter [OF re_match_suffix [OF m] False] have "r = c # cs" .
        with m e show ?thesis by auto
      next
        assume "(m, Some gs) \<in> set (occurrences p cs)"
        from "2.IH"(3) [OF m refl False this] show ?thesis .
      qed
    qed
  qed
qed

lemma sub_from_replace_all: "sub_from p t s = replace_all (p, t) s"
  by (induction p t s rule: sub_from.induct)
     (auto simp: replace_all_def replace_piece_def split: option.splits)

lemma foldl_replace_all:
  "foldl (\<lambda>cur (p, t). sub_from p t cur) d rules = foldl (\<lambda>current rule. replace_all rule current) d rules"
  by (induction rules arbitrary: d) (auto simp: sub_from_replace_all)

lemma apply_replacements_spec:
  "apply_replacements REPLACEMENTS d = Inr (fst (spec_rewrite d REPLACEMENTS))"
  by (simp add: apply_replacements_foldl [OF shrinks_table] foldl_replace_all spec_rewrite_def Let_def)

lemma clean_html_file_readable:
  assumes "map_of (fs w) p = Some f" and "on_read f = Inr d"
    and "apply_replacements REPLACEMENTS d = Inr d'"
  shows "clean_html_file p dry w =
     (if d' \<noteq> d \<and> \<not> dry
      then (case on_write f of
              None \<Rightarrow>
                (w\<lparr>trace := trace w @ [ReadText p, WriteText p d'],
                   fs := AList.update p (f\<lparr>on_read := Inr d'\<rparr>) (fs w)\<rparr>, True)
            | Some (Exn e) \<Rightarrow>
                (print (''Error processing '' @ path_str p @ '': '' @ e)
                   (w\<lparr>trace := trace w @ [ReadText p, WriteText p d']\<rparr>), False))
      else (w\<lparr>trace := trace w @ [ReadText p]\<rparr>, d' \<noteq> d))"
proof (cases "on_write f")
  case None
  with assms show ?thesis
    by (auto simp: clean_html_file_def clean_html_file_try_def read_text_def write_text_def Let_def)
next
  case (Some x)
  obtain e where "x = Exn e" by (cases x)
  with Some assms show ?thesis
    by (auto simp: clean_html_file_def clean_html_file_try_def read_text_def write_text_def Let_def)
qed

lemma occurrences_at:
  "occurrences p s = pre @ (m, g) # post \<Longrightarrow>
     (case g of
        Some gs \<Rightarrow> re_match p (m @ concat (map fst post)) = Some (gs, concat (map fst post))
      | None \<Rightarrow> (\<exists>c. m = [c]) \<and>
          (re_match p (m @ concat (map fst post)) = None \<or>
           (\<exists>gs. re_match p (m @ concat (map fst post)) = Some (gs, m @ concat (map fst post)))))"
proof (induction p s arbitrary: pre rule: occurrences.induct)
  case (1 p)
  show ?case
  proof (cases "re_match p []")
    case None
    with 1 show ?thesis by simp
  next
    case (Some a)
    obtain gs r where a: "a = (gs, r)" by (cases a)
    with Some re_match_suffix [of p "[]" gs r] have r: "r = []" by simp
    from 1 Some a have "pre = []" "m = []" "g = Some gs" "post = []"
      by (auto simp: Cons_eq_append_conv)
    with Some a r show ?thesis by simp
  qed
next
  case (2 p c cs)
  show ?case
  proof (cases "re_match p (c # cs)")
    case None
    with "2.prems" have e: "([c], None) # occurrences p cs = pre @ (m, g) # post" by simp
    show ?thesis
    proof (cases pre)
      case Nil
      with e have "m = [c]" "g = None" "post = occurrences p cs" by simp_all
      with None show ?thesis by (simp add: occurrences_partition)
    next
      case (Cons y pre')
      with e have "occurrences p cs = pre' @ (m, g) # post" by simp
      from "2.IH"(1) [OF None this] show ?thesis .
    qed
  next
    case (Some a)
    obtain gs r where a: "a = (gs, r)" by (cases a)
    with Some have mt: "re_match p (c # cs) = Some (gs, r)" by simp
    show ?thesis
    proof (cases "length r < length (c # cs)")
      case True
      with "2.prems" mt have e:
        "(take (length (c # cs) - length r) (c # cs), Some gs) # occurrences p r = pre @ (m, g) # post"
        by simp
      show ?thesis
      proof (cases pre)
        case Nil
        with e have "m = take (length (c # cs) - length r) (c # cs)" "g = Some gs"
          "post = occurrences p r" by simp_all
        with mt suffix_take_append [OF re_match_suffix [OF mt]] show ?thesis
          by (simp add: occurrences_partition)
      next
        case (Cons y pre')
        with e have "occurrences p r = pre' @ (m, g) # post" by simp
        from "2.IH"(2) [OF mt refl True this] show ?thesis .
      qed
    next
      case False
      from suffix_not_shorter [OF re_match_suffix [OF mt] False] have r: "r = c # cs" .
      from "2.prems" mt False have e:
        "([], Some gs) # ([c], None) # occurrences p cs = pre @ (m, g) # post"
        by simp
      show ?thesis
      proof (cases pre)
        case Nil
        with e have "m = []" "g = Some gs" "post = ([c], None) # occurrences p cs" by simp_all
        with mt r show ?thesis by (simp add: occurrences_partition)
      next
        case (Cons y pre')
        with e have e': "([c], None) # occurrences p cs = pre' @ (m, g) # post" by simp
        show ?thesis
        proof (cases pre')
          case Nil
          with e' have "m = [c]" "g = None" "post = occurrences p cs" by simp_all
          with mt r show ?thesis by (simp add: occurrences_partition)
        next
          case (Cons y' pre'')
          with e' have "occurrences p cs = pre'' @ (m, g) # post" by simp
          from "2.IH"(3) [OF mt refl False this] show ?thesis .
        qed
      qed
    qed
  qed
qed

lemma table_match_nonempty:
  assumes "rule \<in> set REPLACEMENTS" and "re_match (fst rule) s = Some (gs, r)"
  shows "length r < length s"
proof -
  from assms(1) shrinks_table have "shrinks (fst rule, snd rule)"
    by (simp add: list_all_iff)
  from shrinks_match [OF this assms(2)] show ?thesis by simp
qed

lemma table_occurrences:
  assumes "rule \<in> set REPLACEMENTS"
  shows "(occurrences (fst rule) s = pre @ (m, Some gs) # post \<longrightarrow>
            re_match (fst rule) (m @ concat (map fst post)) = Some (gs, concat (map fst post)) \<and>
            m \<noteq> []) \<and>
         (occurrences (fst rule) s = pre @ (m, None) # post \<longrightarrow>
            (\<exists>c. m = [c]) \<and> re_match (fst rule) (m @ concat (map fst post)) = None)"
proof (intro conjI impI)
  assume o: "occurrences (fst rule) s = pre @ (m, Some gs) # post"
  from occurrences_at [OF o]
  show mt: "re_match (fst rule) (m @ concat (map fst post)) = Some (gs, concat (map fst post))"
    by simp
  from table_match_nonempty [OF assms mt] show "m \<noteq> []" by auto
next
  assume o: "occurrences (fst rule) s = pre @ (m, None) # post"
  from occurrences_at [OF o] show "\<exists>c. m = [c]" by simp
  from occurrences_at [OF o] table_match_nonempty [OF assms, of "m @ concat (map fst post)"]
  show "re_match (fst rule) (m @ concat (map fst post)) = None"
    by auto
qed

lemma clean_html_file_true:
  assumes "snd (clean_html_file p dry w)" and "map_of (fs w) p = Some f"
    and "on_read f = Inr d" and "apply_replacements REPLACEMENTS d = Inr d'"
  shows "d' \<noteq> d"
proof
  assume "d' = d"
  with assms(2-4) have "snd (clean_html_file_try p dry w) = Inr False"
    by (simp add: clean_html_file_try_def read_text_def)
  with assms(1) show False
    by (simp add: clean_snd_try)
qed

subsection \<open>A second pass over a tame document\<close>

lemma lt_neq_dq [simp]: "lt \<noteq> dq" "dq \<noteq> lt"
  by (simp_all add: lt_def dq_def)

lemma in_quotes_append: "in_quotes q (x @ y) = in_quotes (in_quotes q x) y"
  by (induction x arbitrary: q) simp_all

lemma tag_safe_append: "tag_safe q (x @ y) = (tag_safe q x \<and> tag_safe (in_quotes q x) y)"
  by (induction x arbitrary: q) auto

lemma re_match_lit_chars:
  "re_match (map (\<lambda>c. Lit [c]) l @ p) s = (if prefix l s then re_match p (drop (length l) s) else None)"
proof (induction l arbitrary: s)
  case Nil
  then show ?case by simp
next
  case (Cons c l)
  show ?case
  proof (cases s)
    case Nil
    then show ?thesis by simp
  next
    case (Cons d s')
    with Cons.IH [of s'] show ?thesis by simp
  qed
qed

lemma re_match_explode: "re_match (explode p) s = re_match p s"
proof (induction p arbitrary: s)
  case Nil
  then show ?case by simp
next
  case (Cons i p)
  from Cons.IH have e: "re_match (explode p) = re_match p"
    by (intro ext)
  show ?case
    by (cases i) (simp_all add: re_match_lit_chars e)
qed

lemma first_some_all_None: "(\<And>x. x \<in> set xs \<Longrightarrow> f x = None) \<Longrightarrow> first_some f xs = None"
  by (induction xs) simp_all

lemma starts_with_mismatch:
  "starts_with c p \<Longrightarrow> s = [] \<or> hd s \<noteq> c \<Longrightarrow> re_match p s = None"
  by (induction c p rule: starts_with.induct) (auto simp: prefix_def)

lemma splits_unfold:
  "splits c s = (takeWhile (\<lambda>d. d \<noteq> c) s, dropWhile (\<lambda>d. d \<noteq> c) s) #
     map (\<lambda>n. (take n s, drop n s)) (rev [0 ..< length (takeWhile (\<lambda>d. d \<noteq> c) s)])"
  by (simp add: splits_def flip: takeWhile_eq_take dropWhile_eq_drop)

lemma short_split_fails:
  assumes "starts_with c p" and "n < length (takeWhile (\<lambda>d. d \<noteq> c) s)"
  shows "re_match p (drop n s) = None"
proof (rule starts_with_mismatch [OF assms(1)])
  from assms(2) have n: "n < length s"
    using length_takeWhile_le [of "\<lambda>d. d \<noteq> c" s] by simp
  from assms(2) have "takeWhile (\<lambda>d. d \<noteq> c) s ! n \<in> set (takeWhile (\<lambda>d. d \<noteq> c) s)"
    by (rule nth_mem)
  then have "takeWhile (\<lambda>d. d \<noteq> c) s ! n \<noteq> c"
    by (auto dest: set_takeWhileD)
  with takeWhile_nth [OF assms(2)] have "s ! n \<noteq> c"
    by simp
  with n show "drop n s = [] \<or> hd (drop n s) \<noteq> c"
    by (simp add: hd_drop_conv_nth)
qed

lemma det_NotStar:
  assumes "starts_with c p"
  shows "re_match (NotStar c # p) s = re_match p (dropWhile (\<lambda>d. d \<noteq> c) s)"
proof -
  have "first_some (\<lambda>(u, v). re_match p v)
          (map (\<lambda>n. (take n s, drop n s)) (rev [0 ..< length (takeWhile (\<lambda>d. d \<noteq> c) s)])) = None"
    by (rule first_some_all_None) (auto simp: short_split_fails [OF assms])
  then show ?thesis
    by (simp add: splits_unfold split: option.splits)
qed

lemma det_Cap:
  assumes "starts_with c p"
  shows "re_match (Cap c # p) s =
     map_option (\<lambda>(gs, r). (takeWhile (\<lambda>d. d \<noteq> c) s # gs, r))
       (re_match p (dropWhile (\<lambda>d. d \<noteq> c) s))"
proof -
  have "first_some (\<lambda>(u, v). map_option (\<lambda>(gs, r). (u # gs, r)) (re_match p v))
          (map (\<lambda>n. (take n s, drop n s)) (rev [0 ..< length (takeWhile (\<lambda>d. d \<noteq> c) s)])) = None"
    by (rule first_some_all_None) (auto simp: short_split_fails [OF assms])
  then show ?thesis
    by (simp add: splits_unfold split: option.splits)
qed

lemma unit_lits_explode: "unit_lits (explode p)"
  by (induction p rule: explode.induct) (simp_all, induct_tac l, simp_all)

lemma no_match_other_char: "starts_with c p \<Longrightarrow> d \<noteq> c \<Longrightarrow> re_match p (d # s) = None"
  by (rule starts_with_mismatch) simp_all

lemma no_match_empty: "starts_with c p \<Longrightarrow> re_match p [] = None"
  by (rule starts_with_mismatch) simp_all

lemma sub_from_empty: "starts_with c p \<Longrightarrow> sub_from p t [] = []"
  using no_match_empty [of c p] by simp

lemma sub_from_skip:
  "starts_with lt p \<Longrightarrow> lt \<notin> set w \<Longrightarrow> sub_from p t (w @ y) = w @ sub_from p t y"
proof (induction w)
  case Nil
  then show ?case by simp
next
  case (Cons d w)
  then have "d \<noteq> lt" by auto
  from no_match_other_char [OF Cons.prems(1) this] Cons show ?case
    by simp
qed

lemma expand_starts: "tstarts_with c t \<Longrightarrow> \<exists>z. expand t gs = c # z"
  by (induction c t rule: tstarts_with.induct) simp_all

lemma sub_from_head:
  assumes "tstarts_with lt t"
  shows "\<exists>z. sub_from p t (lt # ys) = lt # z"
proof (cases "re_match p (lt # ys)")
  case None
  then show ?thesis by simp
next
  case (Some a)
  obtain gs r where a: "a = (gs, r)" by (cases a)
  from expand_starts [OF assms, of gs] obtain z where "expand t gs = lt # z" ..
  with Some a show ?thesis by simp
qed

lemma sub_from_matched:
  "re_match p (c # cs) = Some (gs, r) \<Longrightarrow> \<exists>z. sub_from p t (c # cs) = expand t gs @ z"
  by simp

lemma normalise:
  assumes "starts_with lt pk" and "lt \<notin> set a"
  obtains a' y' where "a @ y = a' @ y'" and "a @ sub_from pk tk y = a' @ sub_from pk tk y'"
    and "lt \<notin> set a'" and "y' = [] \<or> (\<exists>ys. y' = lt # ys)"
proof
  let ?w = "takeWhile (\<lambda>d. d \<noteq> lt) y" and ?y' = "dropWhile (\<lambda>d. d \<noteq> lt) y"
  show "a @ y = (a @ ?w) @ ?y'" by simp
  have w: "lt \<notin> set ?w" by (auto dest: set_takeWhileD)
  have "sub_from pk tk y = sub_from pk tk (?w @ ?y')" by simp
  also have "\<dots> = ?w @ sub_from pk tk ?y'"
    by (rule sub_from_skip [OF assms(1) w])
  finally show "a @ sub_from pk tk y = (a @ ?w) @ sub_from pk tk ?y'" by simp
  from assms(2) w show "lt \<notin> set (a @ ?w)" by simp
  show "?y' = [] \<or> (\<exists>ys. ?y' = lt # ys)"
  proof (cases ?y')
    case Nil
    then show ?thesis by simp
  next
    case (Cons d ds)
    then have "d = lt" using hd_dropWhile [of "\<lambda>d. d \<noteq> lt" y] by auto
    with Cons show ?thesis by simp
  qed
qed

lemma tag_safe_tl: "tag_safe q (d # s) \<Longrightarrow> tag_safe (in_quotes q [d]) s"
  by (auto split: if_splits)

lemma tag_safe_lt: "tag_safe q (lt # s) \<Longrightarrow> \<not> q \<and> tag_safe False s"
  by (auto split: if_splits)

lemma in_quotes_no_dq: "dq \<notin> set u \<Longrightarrow> in_quotes q u = q"
  by (induction u) auto

lemma dropWhile_lt_norm:
  "lt \<notin> set a \<Longrightarrow> y = [] \<or> (\<exists>ys. y = lt # ys) \<Longrightarrow> dropWhile (\<lambda>d. d \<noteq> lt) (a @ y) = y"
  by (induction a) auto

lemma dropWhile_dq_in:
  "dq \<in> set a \<Longrightarrow> dropWhile (\<lambda>d. d \<noteq> dq) (a @ y) = dropWhile (\<lambda>d. d \<noteq> dq) a @ y"
  by (induction a) auto

lemma inert_tail: "inert pk tk (i # p) \<Longrightarrow> inert pk tk p"
  by (auto simp: inert_def suffix_Cons)

lemma star_transfer:
  assumes pk: "starts_with lt pk" and tk: "tstarts_with lt tk"
    and c: "c = dq \<and> q \<or> c = lt \<and> \<not> q"
    and a: "lt \<notin> set a" and y: "y = [] \<or> (\<exists>ys. y = lt # ys)"
    and safe: "tag_safe q (a @ y)"
  obtains a' q' where "dropWhile (\<lambda>d. d \<noteq> c) (a @ y) = a' @ y"
    and "dropWhile (\<lambda>d. d \<noteq> c) (a @ sub_from pk tk y) = a' @ sub_from pk tk y"
    and "lt \<notin> set a'" and "tag_safe q (a' @ y)"
proof (cases "c = dq")
  case True
  with c have q: "q" by simp
  show ?thesis
  proof (cases "dq \<in> set a")
    case in_a: True
    let ?a' = "dropWhile (\<lambda>d. d \<noteq> dq) a"
    have 1: "dropWhile (\<lambda>d. d \<noteq> c) (a @ y) = ?a' @ y"
      and 2: "dropWhile (\<lambda>d. d \<noteq> c) (a @ sub_from pk tk y) = ?a' @ sub_from pk tk y"
      using True in_a by (simp_all add: dropWhile_dq_in)
    from a have 3: "lt \<notin> set ?a'" by (auto dest: set_dropWhileD)
    have "a @ y = takeWhile (\<lambda>d. d \<noteq> dq) a @ ?a' @ y" by simp
    with safe have "tag_safe q (takeWhile (\<lambda>d. d \<noteq> dq) a @ ?a' @ y)" by simp
    then have "tag_safe (in_quotes q (takeWhile (\<lambda>d. d \<noteq> dq) a)) (?a' @ y)"
      by (simp only: tag_safe_append)
    moreover have "in_quotes q (takeWhile (\<lambda>d. d \<noteq> dq) a) = q"
      by (rule in_quotes_no_dq) (auto dest: set_takeWhileD)
    ultimately have 4: "tag_safe q (?a' @ y)" by simp
    from 1 2 3 4 show ?thesis by (rule that)
  next
    case False
    from safe have "tag_safe (in_quotes q a) y" by (simp add: tag_safe_append)
    with False have "tag_safe q y" by (simp add: in_quotes_no_dq)
    with q y have y0: "y = []" by auto
    from sub_from_empty [OF pk, of tk] y0 have s0: "sub_from pk tk y = []" by simp
    have 1: "dropWhile (\<lambda>d. d \<noteq> c) (a @ y) = [] @ y"
      using True False y0 by auto
    have 2: "dropWhile (\<lambda>d. d \<noteq> c) (a @ sub_from pk tk y) = [] @ sub_from pk tk y"
      using True False y0 s0 by auto
    from 1 2 show ?thesis by (rule that) (simp_all add: y0)
  qed
next
  case False
  with c have cl: "c = lt" and q: "\<not> q" by simp_all
  have 1: "dropWhile (\<lambda>d. d \<noteq> c) (a @ y) = [] @ y"
    using cl dropWhile_lt_norm [OF a y] by simp
  have "sub_from pk tk y = [] \<or> (\<exists>zs. sub_from pk tk y = lt # zs)"
    using y sub_from_head [OF tk, of pk] sub_from_empty [OF pk, of tk] by auto
  from dropWhile_lt_norm [OF a this] cl
  have 2: "dropWhile (\<lambda>d. d \<noteq> c) (a @ sub_from pk tk y) = [] @ sub_from pk tk y"
    by simp
  from safe have "tag_safe (in_quotes q a) y" by (simp add: tag_safe_append)
  with y q have 4: "tag_safe q ([] @ y)"
    by (auto dest: tag_safe_lt)
  from 1 2 show ?thesis by (rule that) (use 4 in simp_all)
qed

lemma failure_survives:
  assumes pk: "starts_with lt pk" and tk: "tstarts_with lt tk"
  shows "unit_lits p \<Longrightarrow> det p \<Longrightarrow> pat_ok q p \<Longrightarrow> lt \<notin> set a \<Longrightarrow> tag_safe q (a @ y) \<Longrightarrow>
     inert pk tk p \<Longrightarrow> re_match p (a @ y) = None \<Longrightarrow>
     re_match p (a @ sub_from pk tk y) = None"
proof (induction p arbitrary: a y q)
  case Nil
  then show ?case by simp
next
  case (Cons i p)
  from normalise [OF pk Cons.prems(4), of y tk]
  obtain a' y' where n1: "a @ y = a' @ y'"
    and n2: "a @ sub_from pk tk y = a' @ sub_from pk tk y'"
    and a': "lt \<notin> set a'" and y': "y' = [] \<or> (\<exists>ys. y' = lt # ys)"
    by blast
  from Cons.prems(5) n1 have safe: "tag_safe q (a' @ y')" by simp
  from Cons.prems(7) n1 have none: "re_match (i # p) (a' @ y') = None" by simp
  note inert_p = inert_tail [OF Cons.prems(6)]
  have "re_match (i # p) (a' @ sub_from pk tk y') = None"
  proof (cases i)
    case (Lit l)
    with Cons.prems(1) obtain c where l: "l = [c]" and up: "unit_lits p"
      by (cases l) auto
    from Cons.prems(2) Lit have dp: "det p" by simp
    from Cons.prems(3) Lit l have ok: "pat_ok (in_quotes q [c]) p" by simp
    show ?thesis
    proof (cases a')
      case Nil
      from y' show ?thesis
      proof
        assume "y' = []"
        with Nil Lit l sub_from_empty [OF pk, of tk] show ?thesis by simp
      next
        assume "\<exists>ys. y' = lt # ys"
        then obtain ys where ys: "y' = lt # ys" ..
        show ?thesis
        proof (cases "c = lt")
          case False
          from sub_from_head [OF tk, of pk ys] obtain z where "sub_from pk tk (lt # ys) = lt # z" ..
          with False Nil Lit l ys show ?thesis by simp
        next
          case True
          show ?thesis
          proof (cases "re_match pk (lt # ys)")
            case None
            then have s: "sub_from pk tk (lt # ys) = lt # sub_from pk tk ys" by simp
            from none Nil Lit l ys True have m: "re_match p ([] @ ys) = None" by simp
            from safe Nil ys have sf: "tag_safe q ([] @ ys)"
              by (auto dest: tag_safe_lt)
            from ok True have ok': "pat_ok q p" by simp
            from Cons.IH [OF up dp ok' _ sf inert_p m]
            have "re_match p (sub_from pk tk ys) = None" by simp
            with s Nil Lit l ys True show ?thesis by simp
          next
            case (Some res)
            obtain gs r where res: "res = (gs, r)" by (cases res)
            from sub_from_matched [of pk lt ys gs r tk] Some res
            obtain z where z: "sub_from pk tk (lt # ys) = expand tk gs @ z" by auto
            have "suffix (i # p) (i # p) \<and> starts_with lt (i # p)"
              using Lit l True by simp
            with Cons.prems(6) Some res have "re_match (i # p) (expand tk gs @ z) = None"
              unfolding inert_def by blast
            with z Nil ys show ?thesis by simp
          qed
        qed
      qed
    next
      case (Cons d a'')
      with a' have d: "d \<noteq> lt" and a'': "lt \<notin> set a''" by auto
      show ?thesis
      proof (cases "c = d")
        case False
        with Cons Lit l show ?thesis by simp
      next
        case True
        from none Cons Lit l True have m: "re_match p (a'' @ y') = None" by simp
        from safe Cons have "tag_safe q (d # a'' @ y')" by simp
        then have sf: "tag_safe (in_quotes q [d]) (a'' @ y')"
          by (rule tag_safe_tl)
        from ok True have ok': "pat_ok (in_quotes q [d]) p" by simp
        from \<open>\<And>a y q. \<lbrakk>unit_lits p; det p; pat_ok q p; lt \<notin> set a; tag_safe q (a @ y);
            inert pk tk p; re_match p (a @ y) = None\<rbrakk> \<Longrightarrow> re_match p (a @ sub_from pk tk y) = None\<close>
          [OF up dp ok' a'' sf inert_p m]
        have "re_match p (a'' @ sub_from pk tk y') = None" .
        with Cons Lit l True show ?thesis by simp
      qed
    qed
  next
    case (NotStar c)
    with Cons.prems(1,2,3) have up: "unit_lits p" and sw: "starts_with c p" and dp: "det p"
      and c: "c = dq \<and> q \<or> c = lt \<and> \<not> q" and ok: "pat_ok q p"
      by simp_all
    from star_transfer [OF pk tk c a' y' safe]
    obtain b where b1: "dropWhile (\<lambda>d. d \<noteq> c) (a' @ y') = b @ y'"
      and b2: "dropWhile (\<lambda>d. d \<noteq> c) (a' @ sub_from pk tk y') = b @ sub_from pk tk y'"
      and b3: "lt \<notin> set b" and b4: "tag_safe q (b @ y')"
      by blast
    from none [unfolded NotStar det_NotStar [OF sw] b1] have m: "re_match p (b @ y') = None"
      by simp
    from Cons.IH [OF up dp ok b3 b4 inert_p m] show ?thesis
      unfolding NotStar det_NotStar [OF sw] b2 by simp
  next
    case (Cap c)
    with Cons.prems(1,2,3) have up: "unit_lits p" and sw: "starts_with c p" and dp: "det p"
      and c: "c = dq \<and> q \<or> c = lt \<and> \<not> q" and ok: "pat_ok q p"
      by simp_all
    from star_transfer [OF pk tk c a' y' safe]
    obtain b where b1: "dropWhile (\<lambda>d. d \<noteq> c) (a' @ y') = b @ y'"
      and b2: "dropWhile (\<lambda>d. d \<noteq> c) (a' @ sub_from pk tk y') = b @ sub_from pk tk y'"
      and b3: "lt \<notin> set b" and b4: "tag_safe q (b @ y')"
      by blast
    from none [unfolded Cap det_Cap [OF sw] b1] have m: "re_match p (b @ y') = None"
      by simp
    from Cons.IH [OF up dp ok b3 b4 inert_p m] show ?thesis
      unfolding Cap det_Cap [OF sw] b2 by simp
  qed
  with n2 show ?case by simp
qed

lemma in_quotes_flip: "in_quotes (\<not> q) g = (\<not> in_quotes q g)"
  by (induction g arbitrary: q) simp_all

lemma neutral_in_quotes: "neutral g \<Longrightarrow> in_quotes q g = q"
  using in_quotes_flip [of False g] by (cases q) (simp_all add: neutral_def)

lemma tag_safe_no_lt: "lt \<notin> set g \<Longrightarrow> tag_safe q g"
  by (induction g arbitrary: q) auto

lemma tag_safe_Cons: "tag_safe q (c # x) = ((c = lt \<longrightarrow> \<not> q) \<and> tag_safe (in_quotes q [c]) x)"
  by auto

lemma neutral_tag_safe: "neutral g \<Longrightarrow> tag_safe q g"
  by (simp add: neutral_def tag_safe_no_lt)

lemma quoted_no_lt: "tag_safe True u \<Longrightarrow> dq \<notin> set u \<Longrightarrow> lt \<notin> set u"
  by (induction u) (auto split: if_splits)

lemma starts_with_matchD:
  "starts_with c p \<Longrightarrow> re_match p s = Some res \<Longrightarrow> \<exists>s'. s = c # s'"
  using starts_with_mismatch [of c p s] by (cases s) auto

lemma star_span_typed:
  assumes c: "c = dq \<and> q \<or> c = lt \<and> \<not> q" and sw: "starts_with c p"
    and safe: "tag_safe q s" and m: "re_match p (dropWhile (\<lambda>d. d \<noteq> c) s) = Some res"
  shows "neutral (takeWhile (\<lambda>d. d \<noteq> c) s) \<and> tag_safe q (dropWhile (\<lambda>d. d \<noteq> c) s)"
proof -
  let ?u = "takeWhile (\<lambda>d. d \<noteq> c) s" and ?v = "dropWhile (\<lambda>d. d \<noteq> c) s"
  have nc: "c \<notin> set ?u" by (auto dest: set_takeWhileD)
  from safe have "tag_safe q (?u @ ?v)" by simp
  then have u: "tag_safe q ?u" and v: "tag_safe (in_quotes q ?u) ?v"
    by (simp_all only: tag_safe_append)
  from starts_with_matchD [OF sw m] obtain v' where v': "?v = c # v'" ..
  show ?thesis
  proof (cases "c = dq")
    case True
    with c have q: "q" by simp
    from True nc have i: "in_quotes q' ?u = q'" for q' by (simp add: in_quotes_no_dq)
    from quoted_no_lt [of ?u] u q True nc have "lt \<notin> set ?u" by simp
    with i [of False] i [of q] v show ?thesis by (simp add: neutral_def)
  next
    case False
    with c have cl: "c = lt" and q: "\<not> q" by simp_all
    from v v' cl have "\<not> in_quotes q ?u" by (auto dest: tag_safe_lt)
    with q have i: "in_quotes False ?u = False" by simp
    with nc cl v q show ?thesis by (simp add: neutral_def)
  qed
qed

lemma match_typed:
  "det p \<Longrightarrow> pat_ok q p \<Longrightarrow> tag_safe q s \<Longrightarrow> re_match p s = Some (gs, r) \<Longrightarrow>
     list_all neutral gs \<and> tag_safe (in_quotes q (plits p)) r"
proof (induction p arbitrary: q s gs r)
  case Nil
  then show ?case by simp
next
  case (Cons i p)
  show ?case
  proof (cases i)
    case (Lit l)
    with Cons.prems have pre: "prefix l s" and m: "re_match p (drop (length l) s) = Some (gs, r)"
      and dp: "det p" and ok: "pat_ok (in_quotes q l) p"
      by (simp_all split: if_splits)
    from pre have "s = l @ drop (length l) s" by (auto simp: prefix_def)
    with Cons.prems(3) have "tag_safe q (l @ drop (length l) s)" by simp
    then have "tag_safe (in_quotes q l) (drop (length l) s)" by (simp only: tag_safe_append)
    from Cons.IH [OF dp ok this m] Lit show ?thesis
      by (simp add: in_quotes_append)
  next
    case (NotStar c)
    with Cons.prems have sw: "starts_with c p" and dp: "det p"
      and c: "c = dq \<and> q \<or> c = lt \<and> \<not> q" and ok: "pat_ok q p"
      by simp_all
    from Cons.prems(4) [unfolded NotStar det_NotStar [OF sw]]
    have m: "re_match p (dropWhile (\<lambda>d. d \<noteq> c) s) = Some (gs, r)" .
    from star_span_typed [OF c sw Cons.prems(3) m]
    have "tag_safe q (dropWhile (\<lambda>d. d \<noteq> c) s)" by simp
    from Cons.IH [OF dp ok this m] NotStar show ?thesis by simp
  next
    case (Cap c)
    with Cons.prems have sw: "starts_with c p" and dp: "det p"
      and c: "c = dq \<and> q \<or> c = lt \<and> \<not> q" and ok: "pat_ok q p"
      by simp_all
    from Cons.prems(4) [unfolded Cap det_Cap [OF sw]]
    obtain gs' where m: "re_match p (dropWhile (\<lambda>d. d \<noteq> c) s) = Some (gs', r)"
      and gs: "gs = takeWhile (\<lambda>d. d \<noteq> c) s # gs'"
      by auto
    from star_span_typed [OF c sw Cons.prems(3) m]
    have n: "neutral (takeWhile (\<lambda>d. d \<noteq> c) s)" and "tag_safe q (dropWhile (\<lambda>d. d \<noteq> c) s)"
      by simp_all
    from Cons.IH [OF dp ok this(2) m] n gs Cap show ?thesis by simp
  qed
qed

lemma expand_neutral:
  "list_all neutral gs \<Longrightarrow> \<forall>n \<in> set (refs t). 1 \<le> n \<and> n \<le> length gs \<Longrightarrow>
     tag_safe q (expand t gs) = tag_safe q (tlits t) \<and>
     in_quotes q (expand t gs) = in_quotes q (tlits t)"
proof (induction t arbitrary: q)
  case Nil
  then show ?case by simp
next
  case (Cons i t)
  show ?case
  proof (cases i)
    case (TLit l)
    with Cons show ?thesis
      by (simp add: tag_safe_append in_quotes_append)
  next
    case (TGroup n)
    with Cons.prems have "n - 1 < length gs" by auto
    with Cons.prems(1) have "neutral (gs ! (n - 1))"
      by (simp add: list_all_length)
    with Cons TGroup show ?thesis
      by (simp add: tag_safe_append in_quotes_append neutral_in_quotes neutral_tag_safe)
  qed
qed

lemma nonempty_match:
  assumes "starts_with c p" and "re_match p s = Some (gs, r)"
  shows "length r < length s"
proof -
  from assms(1) obtain l p' where p: "p = Lit (c # l) # p'"
    by (induction c p rule: starts_with.induct) auto
  with assms(2) have pre: "prefix (c # l) s"
    and m: "re_match p' (drop (length (c # l)) s) = Some (gs, r)"
    by (simp_all split: if_splits)
  from re_match_suffix [OF m] have "length r \<le> length s - length (c # l)"
    using suffix_length_le by fastforce
  moreover from pre have "length (c # l) \<le> length s" by (rule prefix_length_le)
  ultimately show ?thesis by simp
qed

lemma sub_from_tag_safe:
  assumes typed: "rule_typed (pk, tk)"
  shows "tag_safe q s \<Longrightarrow> tag_safe q (sub_from pk tk s)"
proof (induction s arbitrary: q rule: length_induct)
  case (1 s)
  from typed have dp: "det pk" and ok: "pat_ok False pk" and sw: "starts_with lt pk"
    and v: "valid_template pk tk" and tl: "tag_safe False (tlits tk)"
    and e: "in_quotes False (tlits tk) = in_quotes False (plits pk)"
    by (simp_all add: rule_typed_def)
  show ?case
  proof (cases s)
    case Nil
    with sub_from_empty [OF sw, of tk] show ?thesis by simp
  next
    case (Cons c cs)
    show ?thesis
    proof (cases "re_match pk (c # cs)")
      case None
      from "1.prems" Cons have "tag_safe q (c # cs)" by simp
      then have cq: "c = lt \<longrightarrow> \<not> q" and "tag_safe (in_quotes q [c]) cs"
        unfolding tag_safe_Cons by blast+
      with "1.IH" Cons have "tag_safe (in_quotes q [c]) (sub_from pk tk cs)" by simp
      with cq have "tag_safe q (c # sub_from pk tk cs)"
        by (simp only: tag_safe_Cons)
      with None Cons show ?thesis by simp
    next
      case (Some res)
      obtain gs r where res: "res = (gs, r)" by (cases res)
      with Some have m: "re_match pk (c # cs) = Some (gs, r)" by simp
      from starts_with_matchD [OF sw m] have c: "c = lt" by simp
      with "1.prems" Cons have q: "\<not> q" and safe: "tag_safe False (c # cs)"
        by (auto dest: tag_safe_lt)
      from match_typed [OF dp ok safe m]
      have n: "list_all neutral gs" and r: "tag_safe (in_quotes False (plits pk)) r"
        by simp_all
      from nonempty_match [OF sw m] have lr: "length r < length (c # cs)" .
      with "1.IH" Cons r have sr: "tag_safe (in_quotes False (plits pk)) (sub_from pk tk r)"
        by simp
      from re_match_length [OF m] valid_template_refs [OF v]
      have "\<forall>n \<in> set (refs tk). 1 \<le> n \<and> n \<le> length gs" by simp
      from expand_neutral [OF n this, of False] tl e
      have "tag_safe False (expand tk gs)"
        and "in_quotes False (expand tk gs) = in_quotes False (plits pk)"
        by simp_all
      with sr have "tag_safe False (expand tk gs @ sub_from pk tk r)"
        by (simp add: tag_safe_append)
      with m lr q Cons show ?thesis by simp
    qed
  qed
qed

lemma re_match_lead:
  "re_match p s = (if prefix (lead p) s then re_match (after_lead p) (drop (length (lead p)) s) else None)"
proof (induction p arbitrary: s rule: lead.induct)
  case (1 l p)
  show ?case
  proof (cases "prefix l s")
    case True
    then obtain s' where s: "s = l @ s'" by (auto simp: prefix_def)
    with 1 [of s'] show ?thesis by simp
  next
    case False
    then have "\<not> prefix (l @ lead p) s" by (auto simp: prefix_def)
    with False show ?thesis by simp
  qed
qed simp_all

lemma expand_tlead: "expand t gs = tlead t @ expand (after_tlead t) gs"
  by (induction t rule: tlead.induct) simp_all

lemma diverge_prefix: "diverge l m \<Longrightarrow> prefix l s \<Longrightarrow> prefix m s \<Longrightarrow> False"
proof (induction l m arbitrary: s rule: diverge.induct)
  case (1 a l b m)
  then obtain s' where "s = a # s'" "s = b # s'" "prefix l s'" "prefix m s'"
    by (cases s) auto
  with 1 show ?case by auto
qed simp_all

lemma splits_elem:
  assumes "(u, v) \<in> set (splits c s)"
  shows "\<exists>n \<le> length (takeWhile (\<lambda>d. d \<noteq> c) s). u = take n s \<and> v = drop n s"
proof -
  from assms have "(u, v) \<in> (\<lambda>n. (take n s, drop n s)) ` {0 ..< Suc (length (takeWhile (\<lambda>d. d \<noteq> c) s))}"
    by (simp only: splits_def set_map set_rev set_upt)
  then obtain n where "n \<in> {0 ..< Suc (length (takeWhile (\<lambda>d. d \<noteq> c) s))}"
    and "(u, v) = (take n s, drop n s)"
    by (rule imageE)
  then show ?thesis by (intro exI [of _ n]) simp
qed

lemma split_group_free:
  assumes "(u, v) \<in> set (splits c s)"
  shows "c \<notin> set u"
proof -
  from splits_elem [OF assms] obtain n where n: "n \<le> length (takeWhile (\<lambda>d. d \<noteq> c) s)"
    and u: "u = take n s" by blast
  show ?thesis
  proof
    assume "c \<in> set u"
    with u obtain i where i: "i < length (take n s)" and c: "take n s ! i = c"
      by (auto simp: in_set_conv_nth)
    with n have ik: "i < length (takeWhile (\<lambda>d. d \<noteq> c) s)" by simp
    then have "takeWhile (\<lambda>d. d \<noteq> c) s ! i \<in> set (takeWhile (\<lambda>d. d \<noteq> c) s)"
      by (rule nth_mem)
    then have "takeWhile (\<lambda>d. d \<noteq> c) s ! i \<noteq> c"
      by (auto dest: set_takeWhileD)
    with takeWhile_nth [OF ik] i c show False by simp
  qed
qed

lemma match_groups:
  "re_match p s = Some (gs, r) \<Longrightarrow> list_all2 (\<lambda>c g. c \<notin> set g) (gchars p) gs"
proof (induction p arbitrary: s gs r)
  case Nil
  then show ?case by simp
next
  case (Cons i p)
  show ?case
  proof (cases i)
    case (Lit l)
    with Cons.prems have "re_match p (drop (length l) s) = Some (gs, r)"
      by (simp split: if_splits)
    from Cons.IH [OF this] Lit show ?thesis by simp
  next
    case (NotStar c)
    with Cons.prems obtain u v where "re_match p v = Some (gs, r)"
      by (auto dest!: first_some_SomeD)
    from Cons.IH [OF this] NotStar show ?thesis by simp
  next
    case (Cap c)
    with Cons.prems obtain u v gs' where uv: "(u, v) \<in> set (splits c s)"
      and m: "re_match p v = Some (gs', r)" and gs: "gs = u # gs'"
      by (auto dest!: first_some_SomeD)
    from Cons.IH [OF m] split_group_free [OF uv] gs Cap show ?thesis by simp
  qed
qed

lemma cap_clashD:
  "cap_clash p t cs \<Longrightarrow> \<exists>c p2 n t2. p = Cap c # p2 \<and> t = TGroup n # t2 \<and> 1 \<le> n \<and>
     n \<le> length cs \<and> cs ! (n - 1) = c \<and> head_clash c (lead p2) (tlead t2)"
  by (induction p t cs rule: cap_clash.induct) simp_all

lemma head_clashD:
  "head_clash c l m \<Longrightarrow> \<exists>b1 b2. l = c # b1 \<and> m = c # b2 \<and> diverge b1 b2"
  by (induction c l m rule: head_clash.induct) simp_all

lemma clash_sound:
  assumes cl: "clash p t cs" and gs: "list_all2 (\<lambda>c g. c \<notin> set g) cs gs"
  shows "re_match p (expand t gs @ z) = None"
proof (cases "diverge (lead p) (tlead t)")
  case True
  show ?thesis
  proof (rule ccontr)
    assume "re_match p (expand t gs @ z) \<noteq> None"
    then have 1: "prefix (lead p) (expand t gs @ z)"
      by (subst (asm) re_match_lead) (simp split: if_splits)
    have 2: "prefix (tlead t) (expand t gs @ z)"
      by (subst expand_tlead) simp
    from diverge_prefix [OF True 1 2] show False .
  qed
next
  case False
  with cl have le: "lead p = tlead t" and cc: "cap_clash (after_lead p) (after_tlead t) cs"
    unfolding clash_def by simp_all
  from cap_clashD [OF cc] obtain c p2 n t2 where ap: "after_lead p = Cap c # p2"
    and at: "after_tlead t = TGroup n # t2"
    and n: "1 \<le> n" "n \<le> length cs" "cs ! (n - 1) = c"
    and hc: "head_clash c (lead p2) (tlead t2)"
    by blast
  from head_clashD [OF hc] obtain b1 b2 where l2: "lead p2 = c # b1" and tl2: "tlead t2 = c # b2"
    and dv: "diverge b1 b2"
    by blast
  let ?g = "gs ! (n - 1)"
  from gs n have g: "c \<notin> set ?g"
    by (auto simp: list_all2_conv_all_nth)
  let ?w = "b2 @ expand (after_tlead t2) gs @ z"
  have e: "expand t gs @ z = lead p @ ?g @ c # ?w"
    using le at tl2 expand_tlead [of t gs] expand_tlead [of t2 gs] by simp
  from g have "\<And>x. x \<in> set ?g \<Longrightarrow> x \<noteq> c" by auto
  then have tw: "takeWhile (\<lambda>d. d \<noteq> c) (?g @ c # ?w) = ?g"
    by (simp add: takeWhile_append2)
  have "first_some (\<lambda>(u, v). map_option (\<lambda>(gs, r). (u # gs, r)) (re_match p2 v))
          (splits c (?g @ c # ?w)) = None"
  proof (rule first_some_all_None)
    fix x assume x: "x \<in> set (splits c (?g @ c # ?w))"
    obtain u v where uv: "x = (u, v)" by (cases x)
    from splits_elem [of u v c "?g @ c # ?w"] x uv tw
    obtain k where k: "k \<le> length ?g" and v: "v = drop k (?g @ c # ?w)" by auto
    have "re_match p2 v = None"
    proof (rule ccontr)
      assume "re_match p2 v \<noteq> None"
      then have pre: "prefix (c # b1) v"
        using l2 by (subst (asm) re_match_lead) (simp split: if_splits)
      show False
      proof (cases "k < length ?g")
        case True
        with v have "v = drop k ?g @ c # ?w" "drop k ?g \<noteq> []" by simp_all
        with pre have "hd (drop k ?g) = c" by (cases "drop k ?g") auto
        moreover from True have "hd (drop k ?g) \<in> set ?g"
          by (simp add: hd_drop_conv_nth)
        ultimately show False using g by simp
      next
        case False
        with k v have "v = c # ?w" by simp
        with pre have "prefix b1 (b2 @ expand (after_tlead t2) gs @ z)" by simp
        from diverge_prefix [OF dv this] show False by simp
      qed
    qed
    with uv show "(case x of (u, v) \<Rightarrow> map_option (\<lambda>(gs, r). (u # gs, r)) (re_match p2 v)) = None"
      by simp
  qed
  then have "re_match (Cap c # p2) (?g @ c # ?w) = None" by simp
  then show ?thesis
    by (subst re_match_lead) (simp add: e ap)
qed

lemma lit_tails_suffix:
  "suffix (lt # l') l \<Longrightarrow> TLit (lt # l') # t \<in> set (lit_tails l t)"
  by (induction l) (auto simp: suffix_Cons)

lemma expand_tails:
  assumes "list_all neutral gs" and "\<forall>n \<in> set (refs t). 1 \<le> n \<and> n \<le> length gs"
    and "suffix (lt # u) (expand t gs)"
  shows "\<exists>t' \<in> set (ttails t). lt # u = expand t' gs"
  using assms(2,3)
proof (induction t)
  case Nil
  then show ?case by simp
next
  case (Cons i t)
  show ?case
  proof (cases i)
    case (TLit l)
    with Cons.prems(2) have "suffix (lt # u) (l @ expand t gs)" by simp
    then consider "suffix (lt # u) (expand t gs)"
      | l' where "lt # u = l' @ expand t gs" "suffix l' l" "l' \<noteq> []"
      unfolding suffix_append by (metis append_Nil suffix_order.refl)
    then show ?thesis
    proof cases
      case 1
      from Cons.IH [OF _ 1] Cons.prems(1) TLit show ?thesis by auto
    next
      case 2
      then obtain l'' where l': "l' = lt # l''" by (cases l') auto
      with 2 have "TLit (lt # l'') # t \<in> set (lit_tails l t)"
        by (simp add: lit_tails_suffix)
      then have m: "TLit (lt # l'') # t \<in> set (ttails (i # t))"
        using TLit by simp
      from 2 l' have "lt # u = expand (TLit (lt # l'') # t) gs" by simp
      with m show ?thesis by (rule rev_bexI)
    qed
  next
    case (TGroup n)
    with Cons.prems(1) have "n - 1 < length gs" by auto
    with assms(1) have g: "lt \<notin> set (gs ! (n - 1))"
      by (simp add: list_all_length neutral_def)
    from Cons.prems(2) TGroup have "suffix (lt # u) (gs ! (n - 1) @ expand t gs)" by simp
    then consider "suffix (lt # u) (expand t gs)"
      | g' where "lt # u = g' @ expand t gs" "suffix g' (gs ! (n - 1))" "g' \<noteq> []"
      unfolding suffix_append by (metis append_Nil suffix_order.refl)
    then show ?thesis
    proof cases
      case 1
      from Cons.IH [OF _ 1] Cons.prems(1) TGroup show ?thesis by auto
    next
      case 2
      then have "hd g' = lt" by (cases g') auto
      moreover from 2 have "set g' \<subseteq> set (gs ! (n - 1))" by (auto simp: suffix_def)
      ultimately show ?thesis using g 2(3) by (cases g') auto
    qed
  qed
qed

lemma plit_tails_suffix:
  "suffix (lt # l') l \<Longrightarrow> Lit (lt # l') # p \<in> set (plit_tails l p)"
  by (induction l) (auto simp: suffix_Cons)

lemma suffix_map_chars:
  assumes "suffix xs (map f l)"
  shows "\<exists>l'. xs = map f l' \<and> suffix l' l"
proof -
  from assms obtain zs where z: "map f l = zs @ xs" by (auto simp: suffix_def)
  then have "xs = drop (length zs) (map f l)" by simp
  then have "xs = map f (drop (length zs) l)" by (simp add: drop_map)
  moreover have "suffix (drop (length zs) l) l" by (rule suffix_drop)
  ultimately show ?thesis by blast
qed

lemma explode_tails:
  "suffix p' (explode p) \<Longrightarrow> starts_with lt p' \<Longrightarrow> \<exists>p'' \<in> set (lt_tails p). p' = explode p''"
proof (induction p)
  case Nil
  then show ?case by simp
next
  case (Cons i p)
  show ?case
  proof (cases i)
    case (Lit l)
    with Cons.prems(1) have "suffix p' (map (\<lambda>c. Lit [c]) l @ explode p)" by simp
    then consider "suffix p' (explode p)"
      | xs where "p' = xs @ explode p" "suffix xs (map (\<lambda>c. Lit [c]) l)" "xs \<noteq> []"
      unfolding suffix_append by (metis append_Nil suffix_order.refl)
    then show ?thesis
    proof cases
      case 1
      from Cons.IH [OF 1 Cons.prems(2)] Lit show ?thesis by auto
    next
      case 2
      from suffix_map_chars [OF 2(2)] obtain l' where l': "xs = map (\<lambda>c. Lit [c]) l'"
        and sl: "suffix l' l" by blast
      with 2(3) obtain c l'' where c: "l' = c # l''" by (cases l') auto
      with 2(1) l' Cons.prems(2) have "c = lt" by simp
      with c sl have "Lit (lt # l'') # p \<in> set (plit_tails l p)"
        by (simp add: plit_tails_suffix)
      then have m: "Lit (lt # l'') # p \<in> set (lt_tails (i # p))"
        using Lit by simp
      from 2(1) l' c \<open>c = lt\<close> have "p' = explode (Lit (lt # l'') # p)" by simp
      with m show ?thesis by (rule rev_bexI)
    qed
  next
    case (NotStar c)
    with Cons.prems have "suffix p' (explode p)"
      by (auto simp: suffix_Cons)
    from Cons.IH [OF this Cons.prems(2)] NotStar show ?thesis by simp
  next
    case (Cap c)
    with Cons.prems have "suffix p' (explode p)"
      by (auto simp: suffix_Cons)
    from Cons.IH [OF this Cons.prems(2)] Cap show ?thesis by simp
  qed
qed

lemma inert_from_clash:
  assumes "compatible (pk, tk) pj"
  shows "inert pk tk (explode pj)"
  unfolding inert_def
proof (intro allI impI)
  fix p' s gs r z
  assume p': "suffix p' (explode pj) \<and> starts_with lt p'"
    and m: "re_match pk s = Some (gs, r)"
  from p' explode_tails [of p' pj] obtain p'' where "p'' \<in> set (lt_tails pj)"
    and e: "p' = explode p''" by blast
  with assms have "clash p'' tk (gchars pk)"
    by (simp add: compatible_def list_all_iff)
  from clash_sound [OF this match_groups [OF m]] e
  show "re_match p' (expand tk gs @ z) = None"
    by (simp add: re_match_explode)
qed

lemma tail_from_clash:
  assumes "compatible (pk, tk) pj" and "t' \<in> set (ttails tk)"
    and "re_match pk s = Some (gs, r)"
  shows "re_match pj (expand t' gs @ z) = None"
proof -
  from assms(1,2) have "clash pj t' (gchars pk)"
    by (simp add: compatible_def list_all_iff)
  from clash_sound [OF this match_groups [OF assms(3)]] show ?thesis .
qed

lemma unmatched_suffix: "unmatched p s \<Longrightarrow> suffix r s \<Longrightarrow> unmatched p r"
  unfolding unmatched_def by (meson suffix_order.trans)

lemma unmatched_Cons: "unmatched p (c # s) = (re_match p (c # s) = None \<and> unmatched p s)"
  unfolding unmatched_def by (auto simp: suffix_Cons)

lemma unmatched_id: "unmatched p s \<Longrightarrow> sub_from p t s = s"
proof (induction s)
  case Nil
  then show ?case by (simp add: unmatched_def)
next
  case (Cons c s)
  then show ?case by (simp add: unmatched_Cons)
qed

lemma no_new_match:
  assumes typed: "rule_typed (pk, tk)" and pj: "pattern_typed pj"
    and comp: "compatible (pk, tk) pj"
  shows "tag_safe q s \<Longrightarrow> pj = pk \<or> unmatched pj s \<Longrightarrow> unmatched pj (sub_from pk tk s)"
proof (induction s arbitrary: q rule: length_induct)
  case (1 s)
  from typed have dp: "det pk" and ok: "pat_ok False pk" and sw: "starts_with lt pk"
    and ts: "tstarts_with lt tk" and v: "valid_template pk tk"
    by (simp_all add: rule_typed_def)
  from pj have swj: "starts_with lt pj" and dj: "det (explode pj)"
    and okj: "pat_ok False (explode pj)"
    by (simp_all add: pattern_typed_def)
  from "1.IH" have IH: "\<And>ys q. length ys < length s \<Longrightarrow> tag_safe q ys \<Longrightarrow>
      pj = pk \<or> unmatched pj ys \<Longrightarrow> unmatched pj (sub_from pk tk ys)"
    by blast
  show ?case
  proof (cases s)
    case Nil
    with sub_from_empty [OF sw, of tk] no_match_empty [OF swj] show ?thesis
      by (simp add: unmatched_def)
  next
    case (Cons c cs)
    show ?thesis
    proof (cases "re_match pk (c # cs)")
      case None
      from "1.prems"(1) Cons have "tag_safe q (c # cs)" by simp
      then have cq: "c = lt \<longrightarrow> \<not> q" and safe': "tag_safe (in_quotes q [c]) cs"
        unfolding tag_safe_Cons by blast+
      from "1.prems"(2) Cons have "pj = pk \<or> unmatched pj cs"
        by (auto simp: unmatched_Cons)
      from IH [OF _ safe' this] Cons have rest: "unmatched pj (sub_from pk tk cs)" by simp
      from "1.prems"(2) Cons None have nj: "re_match pj (c # cs) = None"
        by (auto simp: unmatched_Cons)
      have "re_match pj (c # sub_from pk tk cs) = None"
      proof (cases "c = lt")
        case False
        then show ?thesis by (rule no_match_other_char [OF swj])
      next
        case True
        with cq have q: "\<not> q" by simp
        from nj have "re_match (explode pj) ([] @ c # cs) = None"
          by (simp add: re_match_explode)
        from failure_survives [OF sw ts unit_lits_explode dj okj _ _ inert_from_clash [OF comp] this]
          "1.prems"(1) Cons q
        have "re_match (explode pj) (sub_from pk tk (c # cs)) = None" by simp
        with None show ?thesis by (simp add: re_match_explode)
      qed
      with rest None Cons show ?thesis by (simp add: unmatched_Cons)
    next
      case (Some res)
      obtain gs r where res: "res = (gs, r)" by (cases res)
      with Some have m: "re_match pk (c # cs) = Some (gs, r)" by simp
      from starts_with_matchD [OF sw m] have c: "c = lt" by simp
      with "1.prems"(1) Cons have safe: "tag_safe False (c # cs)"
        by (auto dest: tag_safe_lt)
      from match_typed [OF dp ok safe m]
      have n: "list_all neutral gs" and r: "tag_safe (in_quotes False (plits pk)) r"
        by simp_all
      from nonempty_match [OF sw m] have lr: "length r < length (c # cs)" .
      from re_match_suffix [OF m] "1.prems"(2) Cons have "pj = pk \<or> unmatched pj r"
        by (auto intro: unmatched_suffix)
      from IH [OF _ r this] Cons lr have rest: "unmatched pj (sub_from pk tk r)" by simp
      from re_match_length [OF m] valid_template_refs [OF v]
      have refs: "\<forall>n \<in> set (refs tk). 1 \<le> n \<and> n \<le> length gs" by simp
      have "unmatched pj (expand tk gs @ sub_from pk tk r)"
        unfolding unmatched_def
      proof (intro allI impI)
        fix u assume "suffix u (expand tk gs @ sub_from pk tk r)"
        then consider "suffix u (sub_from pk tk r)"
          | u0 where "u = u0 @ sub_from pk tk r" "suffix u0 (expand tk gs)" "u0 \<noteq> []"
          unfolding suffix_append by (metis append_Nil suffix_order.refl)
        then show "re_match pj u = None"
        proof cases
          case 1
          with rest show ?thesis by (simp add: unmatched_def)
        next
          case 2
          then obtain d u1 where u0: "u0 = d # u1" by (cases u0) auto
          show ?thesis
          proof (cases "d = lt")
            case False
            with 2 u0 no_match_other_char [OF swj False] show ?thesis by simp
          next
            case True
            with 2 u0 have "suffix (lt # u1) (expand tk gs)" by simp
            from expand_tails [OF n refs this] obtain t' where "t' \<in> set (ttails tk)"
              and "lt # u1 = expand t' gs" by blast
            with tail_from_clash [OF comp this(1) m, of "sub_from pk tk r"] 2 u0 True
            show ?thesis by simp
          qed
        qed
      qed
      with m lr Cons show ?thesis by simp
    qed
  qed
qed

lemma table_ok_REPLACEMENTS: "table_ok REPLACEMENTS"
  by code_simp

lemma clash_view_eq: "clash_view (pview p) (tview t) cs = clash p t cs"
  by (simp add: clash_view_def pview_def tview_def clash_def)

lemma check_rulesD:
  "check_rules tails pats rs \<Longrightarrow> (pk, tk) \<in> set rs \<Longrightarrow>
     check_rule tails pats (gchars pk) (tview tk) (map tview (ttails tk))"
  by (induction tails pats rs rule: check_rules.induct) auto

lemma compatible_tableD:
  assumes "compatible_table rules" and "(pk, tk) \<in> set rules" and "(pj, tj) \<in> set rules"
  shows "compatible (pk, tk) pj"
proof -
  let ?tails = "map pview (concat (map (\<lambda>rule. lt_tails (fst rule)) rules))"
  let ?pats = "map (\<lambda>rule. pview (fst rule)) rules"
  from check_rulesD [OF assms(1) [unfolded compatible_table_def] assms(2)]
  have a: "list_all (\<lambda>pv. clash_view pv (tview tk) (gchars pk)) ?tails"
    and b: "list_all (\<lambda>tv'. list_all (\<lambda>pv. clash_view pv tv' (gchars pk)) ?pats)
              (map tview (ttails tk))"
    by (simp_all add: check_rule_def)
  have 1: "clash p' tk (gchars pk)" if "p' \<in> set (lt_tails pj)" for p'
  proof -
    from that assms(3) have "pview p' \<in> set ?tails" by force
    with a have "clash_view (pview p') (tview tk) (gchars pk)"
      unfolding list_all_iff by blast
    then show ?thesis by (simp only: clash_view_eq)
  qed
  have 2: "clash pj t' (gchars pk)" if "t' \<in> set (ttails tk)" for t'
  proof -
    from that have "tview t' \<in> set (map tview (ttails tk))" by simp
    with b have "list_all (\<lambda>pv. clash_view pv (tview t') (gchars pk)) ?pats"
      unfolding list_all_iff by blast
    moreover from assms(3) have "pview pj \<in> set ?pats" by force
    ultimately have "clash_view (pview pj) (tview t') (gchars pk)"
      unfolding list_all_iff by blast
    then show ?thesis by (simp only: clash_view_eq)
  qed
  from 1 2 show ?thesis
    by (simp add: compatible_def list_all_iff)
qed

lemma rewrite_pass:
  assumes ok: "table_ok tbl"
  shows "set rules \<subseteq> set tbl \<Longrightarrow> D \<subseteq> set tbl \<Longrightarrow> tag_safe q s \<Longrightarrow>
     (\<forall>r \<in> D. unmatched (fst r) s) \<Longrightarrow>
     tag_safe q (foldl (\<lambda>cur (p, t). sub_from p t cur) s rules) \<and>
     (\<forall>r \<in> D \<union> set rules. unmatched (fst r) (foldl (\<lambda>cur (p, t). sub_from p t cur) s rules))"
proof (induction rules arbitrary: s D)
  case Nil
  then show ?case by simp
next
  case (Cons rule rules)
  obtain pk tk where rule: "rule = (pk, tk)" by (cases rule)
  with Cons.prems(1) have in_tbl: "(pk, tk) \<in> set tbl" and rest: "set rules \<subseteq> set tbl"
    by simp_all
  from ok in_tbl have typed: "rule_typed (pk, tk)" and ptk: "pattern_typed pk"
    by (auto simp: table_ok_def list_all_iff)
  from ok have ct: "compatible_table tbl" by (simp add: table_ok_def)
  let ?s1 = "sub_from pk tk s"
  have safe1: "tag_safe q ?s1"
    by (rule sub_from_tag_safe [OF typed Cons.prems(3)])
  have self: "unmatched pk ?s1"
    by (rule no_new_match [OF typed ptk compatible_tableD [OF ct in_tbl in_tbl] Cons.prems(3)]) simp
  have others: "unmatched (fst r) ?s1" if "r \<in> D" for r
  proof -
    obtain pj tj where r: "r = (pj, tj)" by (cases r)
    with that Cons.prems(2) have rj: "(pj, tj) \<in> set tbl" by auto
    with ok have pj: "pattern_typed pj" by (auto simp: table_ok_def list_all_iff)
    from that r Cons.prems(4) have "unmatched pj s" by auto
    then have "pj = pk \<or> unmatched pj s" ..
    from no_new_match [OF typed pj compatible_tableD [OF ct in_tbl rj] Cons.prems(3) this] r
    show ?thesis by simp
  qed
  have D': "insert (pk, tk) D \<subseteq> set tbl" using in_tbl Cons.prems(2) by simp
  have "\<forall>r \<in> insert (pk, tk) D. unmatched (fst r) ?s1"
    using self others by auto
  from Cons.IH [OF rest D' safe1 this] rule show ?case by simp
qed

lemma foldl_unmatched:
  "\<forall>r \<in> set rules. unmatched (fst r) e \<Longrightarrow> foldl (\<lambda>cur (p, t). sub_from p t cur) e rules = e"
proof (induction rules)
  case Nil
  then show ?case by simp
next
  case (Cons rule rules)
  obtain p t where "rule = (p, t)" by (cases rule)
  with Cons show ?case by (simp add: unmatched_id)
qed

subsection \<open>The claims about the rewrite\<close>

text \<open>C9: the call-to-action link of example scenario 3 loses its \<open>style\<close> attribute and keeps
  its \<open>href\<close>, which the rule's group captures; the file is reported as changed.\<close>

theorem cta_button_example:
  \<open>apply_replacements REPLACEMENTS ''<a href="/x" class="cta-button" style="color:red;">Go</a>''
     = Inr ''<a href="/x" class="cta-button">Go</a>''
   \<and> re_match (fst (REPLACEMENTS ! 16)) ''<a href="/x" class="cta-button" style="color:red;">Go</a>''
     = Some ([''/x''], ''Go</a>'')
   \<and> snd (clean_html_file [''cta.html''] True
       \<lparr>fs = [([''cta.html''],
          \<lparr>on_read = Inr ''<a href="/x" class="cta-button" style="color:red;">Go</a>'',
           on_write = None\<rparr>)], trace = []\<rparr>) = True\<close>
  by code_simp

text \<open>C1 (the changed flag): the flag that \<open>clean_html_file\<close> returns is not true whenever
  the final text differs from the original. Here the rewrite turns the table tag into
  \<open><table>\<close>, the run is not a dry run and \<open>write_text\<close> raises: the error is printed and
  \<open>False\<close> is returned.\<close>

theorem changed_flag_counterexample:
  \<open>apply_replacements REPLACEMENTS ''<table style="width:100%">'' = Inr ''<table>''
   \<and> ''<table>'' \<noteq> ''<table style="width:100%">''
   \<and> clean_html_file [''site'', ''posts'', ''b.html''] False
       \<lparr>fs = [([''site'', ''posts'', ''b.html''],
               \<lparr>on_read = Inr ''<table style="width:100%">'',
                on_write = Some (Exn ''Permission denied'')\<rparr>)],
        trace = []\<rparr>
     = (\<lparr>fs = [([''site'', ''posts'', ''b.html''],
                \<lparr>on_read = Inr ''<table style="width:100%">'',
                 on_write = Some (Exn ''Permission denied'')\<rparr>)],
         trace = [ReadText [''site'', ''posts'', ''b.html''],
                  WriteText [''site'', ''posts'', ''b.html''] ''<table>'',
                  Print ''Error processing site/posts/b.html: Permission denied'']\<rparr>,
        False)\<close>
  by code_simp

text \<open>C1 as amended: on a file that reads as \<open>d\<close>, \<open>clean_html_file\<close> computes what the
  specification's File Rewriter computes: starting from \<open>d\<close>, the rules of the table applied
  once each, in table order, each replacing every non-overlapping match in the current text,
  and the changed flag, true exactly when the final text differs from \<open>d\<close>. It returns that
  flag, except that it returns \<open>False\<close> when the text differs, the run is not a dry run and
  writing raises; then the error is printed. For every rule of the table \<open>occurrences\<close> cuts the
  text into pieces that make it up: a piece marked as a match is a non-empty match of the
  matcher at its place, and a piece not marked is one character at which the matcher does not
  match.\<close>

theorem rewrite_refines_spec:
  assumes "map_of (fs w) p = Some f" and "on_read f = Inr d"
  shows "apply_replacements REPLACEMENTS d = Inr (fst (spec_rewrite d REPLACEMENTS))
       \<and> snd (spec_rewrite d REPLACEMENTS) = (fst (spec_rewrite d REPLACEMENTS) \<noteq> d)
       \<and> clean_html_file p dry w =
           (if snd (spec_rewrite d REPLACEMENTS) \<and> \<not> dry
            then (case on_write f of
                    None \<Rightarrow>
                      (w\<lparr>trace := trace w @
                           [ReadText p, WriteText p (fst (spec_rewrite d REPLACEMENTS))],
                         fs := AList.update p
                           (f\<lparr>on_read := Inr (fst (spec_rewrite d REPLACEMENTS))\<rparr>) (fs w)\<rparr>,
                       True)
                  | Some (Exn e) \<Rightarrow>
                      (print (''Error processing '' @ path_str p @ '': '' @ e)
                         (w\<lparr>trace := trace w @
                            [ReadText p, WriteText p (fst (spec_rewrite d REPLACEMENTS))]\<rparr>),
                       False))
            else (w\<lparr>trace := trace w @ [ReadText p]\<rparr>, snd (spec_rewrite d REPLACEMENTS)))
       \<and> snd (clean_html_file p dry w) =
           (snd (spec_rewrite d REPLACEMENTS) \<and> (dry \<or> on_write f = None))
       \<and> (rule \<in> set REPLACEMENTS \<longrightarrow>
            concat (map fst (occurrences (fst rule) s)) = s \<and>
            (occurrences (fst rule) s = pre @ (m, Some gs) # post \<longrightarrow>
               re_match (fst rule) (m @ concat (map fst post))
                 = Some (gs, concat (map fst post)) \<and> m \<noteq> []) \<and>
            (occurrences (fst rule) s = pre @ (m, None) # post \<longrightarrow>
               (\<exists>c. m = [c]) \<and> re_match (fst rule) (m @ concat (map fst post)) = None))"
proof -
  let ?S = "spec_rewrite d REPLACEMENTS"
  have a: "apply_replacements REPLACEMENTS d = Inr (fst ?S)"
    by (rule apply_replacements_spec)
  have e: "snd ?S = (fst ?S \<noteq> d)"
    by (simp add: spec_rewrite_def Let_def)
  have c: "clean_html_file p dry w =
           (if snd ?S \<and> \<not> dry
            then (case on_write f of
                    None \<Rightarrow>
                      (w\<lparr>trace := trace w @ [ReadText p, WriteText p (fst ?S)],
                         fs := AList.update p (f\<lparr>on_read := Inr (fst ?S)\<rparr>) (fs w)\<rparr>, True)
                  | Some (Exn e) \<Rightarrow>
                      (print (''Error processing '' @ path_str p @ '': '' @ e)
                         (w\<lparr>trace := trace w @ [ReadText p, WriteText p (fst ?S)]\<rparr>), False))
            else (w\<lparr>trace := trace w @ [ReadText p]\<rparr>, snd ?S))"
    using clean_html_file_readable [OF assms a, of dry] unfolding e .
  have r: "snd (clean_html_file p dry w) = (snd ?S \<and> (dry \<or> on_write f = None))"
  proof (cases "on_write f")
    case None
    then show ?thesis unfolding c by simp
  next
    case (Some x)
    obtain msg where "x = Exn msg" by (cases x)
    with Some show ?thesis unfolding c by auto
  qed
  have o: "rule \<in> set REPLACEMENTS \<longrightarrow>
            concat (map fst (occurrences (fst rule) s)) = s \<and>
            (occurrences (fst rule) s = pre @ (m, Some gs) # post \<longrightarrow>
               re_match (fst rule) (m @ concat (map fst post))
                 = Some (gs, concat (map fst post)) \<and> m \<noteq> []) \<and>
            (occurrences (fst rule) s = pre @ (m, None) # post \<longrightarrow>
               (\<exists>c. m = [c]) \<and> re_match (fst rule) (m @ concat (map fst post)) = None)"
    using occurrences_partition [of "fst rule" s] table_occurrences [of rule s pre m gs post]
    by blast
  from a e c r o show ?thesis by (intro conjI)
qed

theorem rewrite_refines_spec_witness:
  \<open>map_of (fs demo_world) [''site'', ''posts'', ''b.html'']
     = Some \<lparr>on_read = Inr ''<table style="width:100%">'', on_write = None\<rparr>
   \<and> on_read \<lparr>on_read = Inr ''<table style="width:100%">'', on_write = None\<rparr>
     = Inr ''<table style="width:100%">''
   \<and> fst (spec_rewrite ''<table style="width:100%">'' REPLACEMENTS) = ''<table>''
   \<and> snd (spec_rewrite ''<table style="width:100%">'' REPLACEMENTS) = True
   \<and> snd (clean_html_file [''site'', ''posts'', ''b.html''] False demo_world) = True\<close>
proof -
  have h1: \<open>map_of (fs demo_world) [''site'', ''posts'', ''b.html'']
     = Some \<lparr>on_read = Inr ''<table style="width:100%">'', on_write = None\<rparr>\<close>
    by (simp add: demo_world_def)
  have h2: \<open>on_read \<lparr>on_read = Inr ''<table style="width:100%">'', on_write = None\<rparr>
     = Inr ''<table style="width:100%">''\<close>
    by simp
  have e: \<open>apply_replacements REPLACEMENTS ''<table style="width:100%">'' = Inr ''<table>''\<close>
    by code_simp
  from rewrite_refines_spec [OF h1 h2, of False] e
  have \<open>fst (spec_rewrite ''<table style="width:100%">'' REPLACEMENTS) = ''<table>''\<close>
    and \<open>snd (spec_rewrite ''<table style="width:100%">'' REPLACEMENTS)
          = (fst (spec_rewrite ''<table style="width:100%">'' REPLACEMENTS)
               \<noteq> ''<table style="width:100%">'')\<close>
    and \<open>snd (clean_html_file [''site'', ''posts'', ''b.html''] False demo_world)
          = (snd (spec_rewrite ''<table style="width:100%">'' REPLACEMENTS)
               \<and> (False \<or> on_write \<lparr>on_read = Inr ''<table style="width:100%">'',
                                      on_write = None\<rparr> = None))\<close>
    by simp_all
  with h1 h2 show ?thesis by simp
qed

text \<open>C10 (lengths): the rewritten text is never longer than the input, and strictly shorter
  when it differs from the input, in particular when \<open>clean_html_file\<close> returns \<open>True\<close>; every
  rule of the table replaces each of its matches by a strictly shorter string.\<close>

theorem rewrite_never_longer:
  "(\<exists>d'. apply_replacements REPLACEMENTS d = Inr d' \<and> length d' \<le> length d \<and>
         (d' \<noteq> d \<longrightarrow> length d' < length d) \<and>
         (\<forall>f. map_of (fs w) p = Some f \<and> on_read f = Inr d \<and> snd (clean_html_file p dry w)
            \<longrightarrow> length d' < length d))
   \<and> (\<forall>rule \<in> set REPLACEMENTS. \<forall>s gs r.
         re_match (fst rule) s = Some (gs, r) \<longrightarrow>
           length (expand (snd rule) gs) + length r < length s)"
proof
  let ?d' = "foldl (\<lambda>cur (p, t). sub_from p t cur) d REPLACEMENTS"
  have a: "apply_replacements REPLACEMENTS d = Inr ?d'"
    by (rule apply_replacements_foldl [OF shrinks_table])
  from foldl_shrinks [OF shrinks_table, of d]
  have l: "length ?d' \<le> length d" and s: "?d' \<noteq> d \<Longrightarrow> length ?d' < length d"
    by simp_all
  have "length ?d' < length d"
    if "map_of (fs w) p = Some f \<and> on_read f = Inr d \<and> snd (clean_html_file p dry w)" for f
    using that clean_html_file_true [OF _ _ _ a, of p dry w f] s by blast
  with a l s show "\<exists>d'. apply_replacements REPLACEMENTS d = Inr d' \<and> length d' \<le> length d \<and>
         (d' \<noteq> d \<longrightarrow> length d' < length d) \<and>
         (\<forall>f. map_of (fs w) p = Some f \<and> on_read f = Inr d \<and> snd (clean_html_file p dry w)
            \<longrightarrow> length d' < length d)"
    by blast
next
  show "\<forall>rule \<in> set REPLACEMENTS. \<forall>s gs r.
         re_match (fst rule) s = Some (gs, r) \<longrightarrow>
           length (expand (snd rule) gs) + length r < length s"
  proof (intro ballI allI impI)
    fix rule s gs r
    assume "rule \<in> set REPLACEMENTS" and m: "re_match (fst rule) s = Some (gs, r)"
    with shrinks_table have "shrinks (fst rule, snd rule)"
      by (simp add: list_all_iff)
    from shrinks_match [OF this m] show "length (expand (snd rule) gs) + length r < length s" .
  qed
qed

theorem rewrite_never_longer_witness:
  \<open>\<exists>d'. apply_replacements REPLACEMENTS ''<table style="width:100%">'' = Inr d' \<and>
        d' \<noteq> ''<table style="width:100%">'' \<and>
        length d' < length ''<table style="width:100%">''\<close>
proof -
  have e: \<open>apply_replacements REPLACEMENTS ''<table style="width:100%">'' = Inr ''<table>''\<close>
    by code_simp
  from rewrite_never_longer [of \<open>''<table style="width:100%">''\<close>] e
  show ?thesis
    by auto
qed

text \<open>C2 (idempotence): a second pass can still change the text. In the document below the
  inner table tag sits inside the quoted value of the outer one; the first pass rewrites the
  inner tag only, and the outer tag matches the table rule in the second pass.\<close>

theorem idempotence_counterexample:
  \<open>apply_replacements REPLACEMENTS ''<table style="<table style="x">">''
     = Inr ''<table style="<table>">''
   \<and> apply_replacements REPLACEMENTS ''<table style="<table>">'' = Inr ''<table>''
   \<and> \<not> tame ''<table style="<table style="x">">''\<close>
  by code_simp

text \<open>C2 as amended: on a tame document, one in which no \<open><\<close> stands inside double quotes
  (between any two consecutive \<open><\<close> the number of double quotes is even), the rewrite is
  idempotent: a second pass over the rewritten text returns that text.\<close>

theorem rewrite_idempotent_on_tame:
  assumes "tame d"
  shows "\<exists>e. apply_replacements REPLACEMENTS d = Inr e \<and> apply_replacements REPLACEMENTS e = Inr e"
proof -
  let ?F = "\<lambda>cur (p, t). sub_from p t cur"
  let ?e = "foldl ?F d REPLACEMENTS"
  from assms obtain q where q: "tag_safe q d" unfolding tame_def by blast
  from rewrite_pass [OF table_ok_REPLACEMENTS, of REPLACEMENTS "{}" q d] q
  have "\<forall>r \<in> set REPLACEMENTS. unmatched (fst r) ?e" by simp
  then have "foldl ?F ?e REPLACEMENTS = ?e" by (rule foldl_unmatched)
  then have "apply_replacements REPLACEMENTS ?e = Inr ?e"
    by (simp add: apply_replacements_foldl [OF shrinks_table])
  moreover have "apply_replacements REPLACEMENTS d = Inr ?e"
    by (rule apply_replacements_foldl [OF shrinks_table])
  ultimately show ?thesis by blast
qed

theorem rewrite_idempotent_on_tame_witness:
  \<open>tame ''<div class="key-takeaways" style="background:#000;"><table style="width:100%"><a href="/x" class="cta-button" style="color:red;">Go</a>''
   \<and> (\<exists>e. apply_replacements REPLACEMENTS
          ''<div class="key-takeaways" style="background:#000;"><table style="width:100%"><a href="/x" class="cta-button" style="color:red;">Go</a>''
            = Inr e
        \<and> apply_replacements REPLACEMENTS e = Inr e)\<close>
proof -
  have h: \<open>tame ''<div class="key-takeaways" style="background:#000;"><table style="width:100%"><a href="/x" class="cta-button" style="color:red;">Go</a>''\<close>
    by code_simp
  from rewrite_idempotent_on_tame [OF h] h show ?thesis
    by blast
qed

end
